theory Spec2Isabelle
  imports Main "HOL-Library.AList"
begin

section \<open>Python values\<close>

text \<open>
  A Python \<open>str\<close> is a sequence of Unicode code points; a code point is a natural number.
  \<open>str\<close> turns an ASCII literal of the theory into such a sequence.  The text of a file and
  the text of a JSON document are Python strings as well, since the program opens its file in
  text mode.
\<close>

type_synonym pystr = "nat list"

definition str :: "string \<Rightarrow> pystr" where
  "str s = map of_char s"

text \<open>
  The values that \<open>json.load\<close> and \<open>response.json()\<close> produce: \<open>None\<close>, \<open>bool\<close>, \<open>int\<close>,
  \<open>float\<close>, \<open>str\<close>, \<open>list\<close> and \<open>dict\<close>.  A \<open>dict\<close> keeps its insertion order, so it is an
  association list.  A \<open>float\<close> is a double, and a double is given by the text that
  \<open>json.dumps\<close> writes for it: its \<open>repr\<close>, or \<open>NaN\<close>, \<open>Infinity\<close>, \<open>-Infinity\<close>.  So
  \<open>JFloat (str ''0.5'')\<close> is the double one half.
\<close>

datatype json =
    JNull
  | JBool bool
  | JInt int
  | JFloat pystr
  | JStr pystr
  | JArr "json list"
  | JObj "(pystr \<times> json) list"

datatype py_exception =
    FileNotFoundError
  | OSError
  | JSONDecodeError
  | KeyError pystr
  | TypeError
  | AttributeError
  | HTTPError nat
  | RequestException
  | RuntimeError
  | UnicodeDecodeError
  | RecursionError
  | ValueError
  | OutOfFuel

text \<open>
  \<open>OutOfFuel\<close> is no exception of Python: the scanner of the embedding answers it when its
  fuel is used up, and \<open>json_loads\<close> never does (lemma \<open>json_loads_raises\<close> below).

  A computation that may raise: \<open>Inl\<close> is the exception, \<open>Inr\<close> the value.
\<close>

fun exc_bind :: "'e + 'a \<Rightarrow> ('a \<Rightarrow> 'e + 'b) \<Rightarrow> 'e + 'b" where
  "exc_bind (Inl e) f = Inl e"
| "exc_bind (Inr x) f = f x"

text \<open>A list comprehension whose element expression may raise: the first exception wins.\<close>

fun map_exc :: "('a \<Rightarrow> 'e + 'b) \<Rightarrow> 'a list \<Rightarrow> 'e + 'b list" where
  "map_exc f [] = Inr []"
| "map_exc f (x # xs) =
     exc_bind (f x) (\<lambda>y. exc_bind (map_exc f xs) (\<lambda>ys. Inr (y # ys)))"

text \<open>\<open>sep.join(xs)\<close>\<close>

fun join :: "'a list \<Rightarrow> 'a list list \<Rightarrow> 'a list" where
  "join sep [] = []"
| "join sep [x] = x"
| "join sep (x # y # ys) = x @ sep @ join sep (y # ys)"

text \<open>\<open>v[key]\<close> with a string key: only a \<open>dict\<close> can be subscripted by a string.\<close>

fun py_getitem :: "json \<Rightarrow> pystr \<Rightarrow> py_exception + json" where
  "py_getitem (JObj kvs) k = (case map_of kvs k of None \<Rightarrow> Inl (KeyError k) | Some v \<Rightarrow> Inr v)"
| "py_getitem v k = Inl TypeError"

text \<open>\<open>v.get(key, default)\<close>: a method of \<open>dict\<close> only.\<close>

fun py_get :: "json \<Rightarrow> pystr \<Rightarrow> json \<Rightarrow> py_exception + json" where
  "py_get (JObj kvs) k d = (case map_of kvs k of None \<Rightarrow> Inr d | Some v \<Rightarrow> Inr v)"
| "py_get v k d = Inl AttributeError"

text \<open>\<open>v.items()\<close>: a method of \<open>dict\<close> only.\<close>

fun py_items :: "json \<Rightarrow> py_exception + (pystr \<times> json) list" where
  "py_items (JObj kvs) = Inr kvs"
| "py_items v = Inl AttributeError"

text \<open>
  \<open>for x in v\<close>: a list yields its elements, a \<open>dict\<close> its keys, a string its characters; the
  other values are not iterable.
\<close>

fun py_iter :: "json \<Rightarrow> py_exception + json list" where
  "py_iter (JArr xs) = Inr xs"
| "py_iter (JObj kvs) = Inr (map (\<lambda>kv. JStr (fst kv)) kvs)"
| "py_iter (JStr s) = Inr (map (\<lambda>c. JStr [c]) s)"
| "py_iter v = Inl TypeError"

text \<open>\<open>len(v)\<close>\<close>

fun py_len :: "json \<Rightarrow> py_exception + nat" where
  "py_len (JArr xs) = Inr (length xs)"
| "py_len (JObj kvs) = Inr (length kvs)"
| "py_len (JStr s) = Inr (length s)"
| "py_len v = Inl TypeError"

text \<open>The truth value of \<open>v\<close>, as \<open>not v\<close> tests it.\<close>

fun py_truthy :: "json \<Rightarrow> bool" where
  "py_truthy JNull = False"
| "py_truthy (JBool b) = b"
| "py_truthy (JInt i) = (i \<noteq> 0)"
| "py_truthy (JFloat r) = (r \<noteq> str ''0.0'' \<and> r \<noteq> str ''-0.0'')"
| "py_truthy (JStr s) = (s \<noteq> [])"
| "py_truthy (JArr xs) = (xs \<noteq> [])"
| "py_truthy (JObj kvs) = (kvs \<noteq> [])"

text \<open>
  \<open>f"{v}"\<close>: a string is inserted as it is.  For every other value Python inserts what
  \<open>str\<close> makes of it, which is its \<open>repr\<close> and is taken as a parameter \<open>rp\<close>.
\<close>

fun py_format :: "(json \<Rightarrow> pystr) \<Rightarrow> json \<Rightarrow> pystr" where
  "py_format rp (JStr s) = s"
| "py_format rp v = rp v"

text \<open>The decimal digits of a natural number, and \<open>repr\<close> of an \<open>int\<close>.\<close>

fun digits :: "nat \<Rightarrow> pystr" where
  "digits n = (if n < 10 then [48 + n] else digits (n div 10) @ [48 + n mod 10])"

definition int_repr :: "int \<Rightarrow> pystr" where
  "int_repr i = (if i < 0 then 45 # digits (nat (- i)) else digits (nat i))"


section \<open>The \<open>json\<close> module\<close>

text \<open>
  The characters of the JSON syntax are written by their code points: 34 is the double quote,
  92 the backslash, 47 the slash, 123 and 125 the braces, 91 and 93 the brackets, 44 the
  comma, 58 the colon, 32 the space, 9, 10 and 13 the tab, the line feed and the carriage
  return, 8 and 12 the backspace and the form feed, 45, 43 and 46 the minus, the plus and the
  dot, 48 to 57 the digits, 101 and 69 the letters \<open>e\<close> and \<open>E\<close>, 117 the letter \<open>u\<close>, and 98,
  102, 110, 114 and 116 the letters \<open>b\<close>, \<open>f\<close>, \<open>n\<close>, \<open>r\<close> and \<open>t\<close> of the escapes.
\<close>

subsection \<open>\<open>json.dumps(v, indent=2)\<close>\<close>

text \<open>
  With the default \<open>ensure_ascii\<close>, a character of a string is written as itself when it is a
  printable ASCII character other than the quote and the backslash, as a two-character escape
  when it has one, and as \<open>\uXXXX\<close> otherwise (lower-case digits; a surrogate pair above the
  basic plane).
\<close>

definition hexdigit :: "nat \<Rightarrow> nat" where
  "hexdigit d = (if d < 10 then 48 + d else 87 + d)"

definition hex4 :: "nat \<Rightarrow> pystr" where
  "hex4 n = [hexdigit (n div 4096 mod 16), hexdigit (n div 256 mod 16),
             hexdigit (n div 16 mod 16), hexdigit (n mod 16)]"

definition escape_char :: "nat \<Rightarrow> pystr" where
  "escape_char c =
     (if c = 92 then [92, 92]
      else if c = 34 then [92, 34]
      else if c = 8 then [92, 98]
      else if c = 12 then [92, 102]
      else if c = 10 then [92, 110]
      else if c = 13 then [92, 114]
      else if c = 9 then [92, 116]
      else if 32 \<le> c \<and> c \<le> 126 then [c]
      else if c < 65536 then 92 # 117 # hex4 c
      else 92 # 117 # hex4 (55296 + (c - 65536) div 1024 mod 1024)
         @ 92 # 117 # hex4 (56320 + (c - 65536) mod 1024))"

definition encode_basestring_ascii :: "pystr \<Rightarrow> pystr" where
  "encode_basestring_ascii s = 34 # concat (map escape_char s) @ [34]"

text \<open>A line break followed by the indentation of nesting level \<open>l\<close>.\<close>

definition newline_indent :: "nat \<Rightarrow> pystr" where
  "newline_indent l = 10 # replicate (2 * l) 32"

fun iterencode :: "nat \<Rightarrow> json \<Rightarrow> pystr" where
  "iterencode l JNull = str ''null''"
| "iterencode l (JBool b) = (if b then str ''true'' else str ''false'')"
| "iterencode l (JInt i) = int_repr i"
| "iterencode l (JFloat r) = r"
| "iterencode l (JStr s) = encode_basestring_ascii s"
| "iterencode l (JArr xs) =
     (if xs = [] then str ''[]''
      else 91 # newline_indent (Suc l)
         @ join (44 # newline_indent (Suc l)) (map (iterencode (Suc l)) xs)
         @ newline_indent l @ [93])"
| "iterencode l (JObj kvs) =
     (if kvs = [] then str ''{}''
      else 123 # newline_indent (Suc l)
         @ join (44 # newline_indent (Suc l))
             (map (\<lambda>(k, v). encode_basestring_ascii k @ [58, 32] @ iterencode (Suc l) v) kvs)
         @ newline_indent l @ [125])"

definition json_dumps :: "json \<Rightarrow> pystr" where
  "json_dumps v = iterencode 0 v"


subsection \<open>\<open>json.loads(s)\<close>\<close>

definition is_ws :: "nat \<Rightarrow> bool" where
  "is_ws c = (c = 32 \<or> c = 9 \<or> c = 10 \<or> c = 13)"

definition skip_ws :: "pystr \<Rightarrow> pystr" where
  "skip_ws s = dropWhile is_ws s"

definition is_digit :: "nat \<Rightarrow> bool" where
  "is_digit c = (48 \<le> c \<and> c \<le> 57)"

definition hexval :: "nat \<Rightarrow> nat option" where
  "hexval c =
     (if 48 \<le> c \<and> c \<le> 57 then Some (c - 48)
      else if 97 \<le> c \<and> c \<le> 102 then Some (c - 87)
      else if 65 \<le> c \<and> c \<le> 70 then Some (c - 55)
      else None)"

text \<open>The four hexadecimal digits after \<open>\u\<close>.\<close>

definition decode_uXXXX :: "pystr \<Rightarrow> nat option" where
  "decode_uXXXX s =
     (case map hexval (take 4 s) of
        [Some a, Some b, Some c, Some d] \<Rightarrow> Some (a * 4096 + b * 256 + c * 16 + d)
      | _ \<Rightarrow> None)"

text \<open>The character a two-character escape stands for.\<close>

definition backslash :: "nat \<Rightarrow> nat option" where
  "backslash e =
     (if e = 34 then Some 34
      else if e = 92 then Some 92
      else if e = 47 then Some 47
      else if e = 98 then Some 8
      else if e = 102 then Some 12
      else if e = 110 then Some 10
      else if e = 114 then Some 13
      else if e = 116 then Some 9
      else None)"

definition cons_char :: "nat \<Rightarrow> py_exception + (pystr \<times> pystr) \<Rightarrow> py_exception + (pystr \<times> pystr)" where
  "cons_char c r = exc_bind r (\<lambda>(s, rest). Inr (c # s, rest))"

text \<open>The two halves of a surrogate pair, \<open>D800\<close> to \<open>DBFF\<close> and \<open>DC00\<close> to \<open>DFFF\<close>.\<close>

definition high_surrogate :: "nat \<Rightarrow> bool" where
  "high_surrogate c = (55296 \<le> c \<and> c \<le> 56319)"

definition low_surrogate :: "nat \<Rightarrow> bool" where
  "low_surrogate c = (56320 \<le> c \<and> c \<le> 57343)"

text \<open>
  \<open>scanstring\<close> reads a string literal after its opening quote, in strict mode, and returns
  the string and the text after the closing quote.  A high surrogate escape followed by a low
  surrogate escape is one character.
\<close>

function scanstring :: "pystr \<Rightarrow> py_exception + (pystr \<times> pystr)" where
  "scanstring [] = Inl JSONDecodeError"
| "scanstring (c # r) =
     (if c = 34 then Inr ([], r)
      else if c = 92 then
        (case r of
           [] \<Rightarrow> Inl JSONDecodeError
         | e # r' \<Rightarrow>
             if e = 117 then
               (case decode_uXXXX r' of
                  None \<Rightarrow> Inl JSONDecodeError
                | Some uni \<Rightarrow>
                    if high_surrogate uni \<and> take 2 (drop 4 r') = [92, 117] then
                      (case decode_uXXXX (drop 6 r') of
                         None \<Rightarrow> Inl JSONDecodeError
                       | Some uni2 \<Rightarrow>
                           if low_surrogate uni2
                           then cons_char (65536 + ((uni - 55296) * 1024 + (uni2 - 56320)))
                                  (scanstring (drop 10 r'))
                           else cons_char uni (scanstring (drop 4 r')))
                    else cons_char uni (scanstring (drop 4 r')))
             else
               (case backslash e of
                  None \<Rightarrow> Inl JSONDecodeError
                | Some ch \<Rightarrow> cons_char ch (scanstring r')))
      else if c < 32 then Inl JSONDecodeError
      else cons_char c (scanstring r))"
  by pat_completeness auto
termination
  by (relation "measure length") auto

text \<open>
  What the scanner takes from the interpreter that runs it.

  \<^item> \<open>recursion_limit\<close>: how many arrays and objects, one inside the other, the scanner may
    enter before the interpreter raises \<open>RecursionError\<close>.  It is what the scanner finds left
    of \<open>sys.getrecursionlimit()\<close>, which is 1000 unless the program changes it.
  \<^item> \<open>errmsg_levels\<close>: the levels of recursion that the scanner needs to build a
    \<open>JSONDecodeError\<close> at the place of the error (3 in CPython 3.11).  With fewer levels left
    the interpreter raises \<open>RecursionError\<close> in its place.
  \<^item> \<open>int_max_str_digits\<close>: \<open>sys.get_int_max_str_digits()\<close>, the number of digits above which
    \<open>int\<close> refuses a literal with \<open>ValueError\<close>; 0 is no limit, 4300 the default.
  \<^item> \<open>float_of_literal\<close>: \<open>float\<close>, from a number literal to the nearest double.
\<close>

record interpreter =
  recursion_limit :: nat
  errmsg_levels :: nat
  int_max_str_digits :: nat
  float_of_literal :: "pystr \<Rightarrow> pystr"

text \<open>
  A number literal \<open>-?(0|[1-9][0-9]*)(\.[0-9]+)?([eE][-+]?[0-9]+)?\<close>.  \<open>None\<close>: no number
  starts here.  A literal with a fraction or an exponent is a \<open>float\<close>, every other one is an
  \<open>int\<close>.
\<close>

definition int_value :: "pystr \<Rightarrow> int" where
  "int_value ds = foldl (\<lambda>a d. 10 * a + int (d - 48)) 0 ds"

definition starts_fraction :: "pystr \<Rightarrow> bool" where
  "starts_fraction s = (case s of c # d # _ \<Rightarrow> c = 46 \<and> is_digit d | _ \<Rightarrow> False)"

definition starts_exponent :: "pystr \<Rightarrow> bool" where
  "starts_exponent s =
     (case s of
        c # d # r \<Rightarrow>
          (c = 101 \<or> c = 69) \<and>
          (is_digit d \<or> ((d = 45 \<or> d = 43) \<and> (case r of x # _ \<Rightarrow> is_digit x | [] \<Rightarrow> False)))
      | _ \<Rightarrow> False)"

text \<open>The fraction \<open>\.[0-9]+\<close> and the exponent \<open>[eE][-+]?[0-9]+\<close> at the head of a text.\<close>

definition fraction_part :: "pystr \<Rightarrow> pystr" where
  "fraction_part s = (if starts_fraction s then 46 # takeWhile is_digit (tl s) else [])"

definition exponent_part :: "pystr \<Rightarrow> pystr" where
  "exponent_part s =
     (if starts_exponent s
      then (case s of e # d # r \<Rightarrow> e # d # takeWhile is_digit r | _ \<Rightarrow> [])
      else [])"

definition match_number :: "interpreter \<Rightarrow> pystr \<Rightarrow> (py_exception + (json \<times> pystr)) option" where
  "match_number py s =
     (let neg = (case s of c # _ \<Rightarrow> c = 45 | [] \<Rightarrow> False);
          s1 = (if neg then tl s else s)
      in case s1 of
           [] \<Rightarrow> None
         | d # r \<Rightarrow>
             if \<not> is_digit d then None
             else
               (let ds = (if d = 48 then [d] else d # takeWhile is_digit r);
                    rest = (if d = 48 then r else dropWhile is_digit r);
                    frac = fraction_part rest;
                    rest1 = drop (length frac) rest;
                    ex = exponent_part rest1;
                    rest2 = drop (length ex) rest1
                in if frac \<noteq> [] \<or> ex \<noteq> []
                   then Some (Inr (JFloat (float_of_literal py
                                             ((if neg then [45] else []) @ ds @ frac @ ex)), rest2))
                   else if int_max_str_digits py \<noteq> 0 \<and> int_max_str_digits py < length ds
                   then Some (Inl ValueError)
                   else Some (Inr (JInt (if neg then - int_value ds else int_value ds), rest))))"

text \<open>
  The scanner raises its errors in two ways.  Where no value starts ("Expecting value") it
  raises \<open>StopIteration\<close>, which the decoder turns into \<open>JSONDecodeError\<close> after the scanner
  has returned; so does the decoder for what follows the value ("Extra data").  Every other
  error is built by \<open>raise_errmsg\<close> where the scanner stands, \<open>depth\<close> levels of recursion
  before the limit.
\<close>

definition raise_errmsg :: "interpreter \<Rightarrow> nat \<Rightarrow> py_exception" where
  "raise_errmsg py depth = (if depth < errmsg_levels py then RecursionError else JSONDecodeError)"

definition scanstring_at :: "interpreter \<Rightarrow> nat \<Rightarrow> pystr \<Rightarrow> py_exception + (pystr \<times> pystr)" where
  "scanstring_at py depth s =
     (case scanstring s of Inl e \<Rightarrow> Inl (raise_errmsg py depth) | Inr res \<Rightarrow> Inr res)"

text \<open>
  The scanner.  Its second argument is fuel: every call uses one unit, and \<open>json_loads\<close>
  gives more than a document of its length can use (lemmas \<open>json_loads_fuel\<close> and
  \<open>json_loads_raises\<close> below).  Its third argument is the number of arrays and objects that
  it may still enter: the interpreter counts one level of recursion for each, before it
  reads what is inside, and raises \<open>RecursionError\<close> when none is left.  An object is built
  as \<open>dict\<close> does it: a repeated key keeps its first position and takes the last value.
\<close>

fun scan_once :: "interpreter \<Rightarrow> nat \<Rightarrow> nat \<Rightarrow> pystr \<Rightarrow> py_exception + (json \<times> pystr)"
  and parse_array :: "interpreter \<Rightarrow> nat \<Rightarrow> nat \<Rightarrow> pystr \<Rightarrow> json list \<Rightarrow> py_exception + (json \<times> pystr)"
  and parse_object :: "interpreter \<Rightarrow> nat \<Rightarrow> nat \<Rightarrow> pystr \<Rightarrow> (pystr \<times> json) list \<Rightarrow> py_exception + (json \<times> pystr)"
where
  "scan_once py 0 depth s = Inl OutOfFuel"
| "scan_once py (Suc n) depth s =
     (case s of
        [] \<Rightarrow> Inl JSONDecodeError
      | c # r \<Rightarrow>
          if c = 34 then exc_bind (scanstring_at py depth r) (\<lambda>(x, rest). Inr (JStr x, rest))
          else if c = 123 then
            (if depth = 0 then Inl RecursionError
             else case skip_ws r of
                    [] \<Rightarrow> Inl (raise_errmsg py (depth - 1))
                  | d # r' \<Rightarrow>
                      if d = 125 then Inr (JObj [], r')
                      else parse_object py n (depth - 1) (d # r') [])
          else if c = 91 then
            (if depth = 0 then Inl RecursionError
             else case skip_ws r of
                    [] \<Rightarrow> Inl JSONDecodeError
                  | d # r' \<Rightarrow>
                      if d = 93 then Inr (JArr [], r')
                      else parse_array py n (depth - 1) (d # r') [])
          else if take 4 s = str ''null'' then Inr (JNull, drop 4 s)
          else if take 4 s = str ''true'' then Inr (JBool True, drop 4 s)
          else if take 5 s = str ''false'' then Inr (JBool False, drop 5 s)
          else
            (case match_number py s of
               Some res \<Rightarrow> res
             | None \<Rightarrow>
                 if take 3 s = str ''NaN'' then Inr (JFloat (str ''NaN''), drop 3 s)
                 else if take 8 s = str ''Infinity'' then Inr (JFloat (str ''Infinity''), drop 8 s)
                 else if take 9 s = str ''-Infinity''
                 then Inr (JFloat (str ''-Infinity''), drop 9 s)
                 else Inl JSONDecodeError))"
| "parse_array py 0 depth s acc = Inl OutOfFuel"
| "parse_array py (Suc n) depth s acc =
     exc_bind (scan_once py n depth s) (\<lambda>(v, r).
       case skip_ws r of
         [] \<Rightarrow> Inl (raise_errmsg py depth)
       | c # r' \<Rightarrow>
           if c = 93 then Inr (JArr (acc @ [v]), r')
           else if c = 44 then parse_array py n depth (skip_ws r') (acc @ [v])
           else Inl (raise_errmsg py depth))"
| "parse_object py 0 depth s acc = Inl OutOfFuel"
| "parse_object py (Suc n) depth s acc =
     (case s of
        [] \<Rightarrow> Inl (raise_errmsg py depth)
      | q # r \<Rightarrow>
          if q \<noteq> 34 then Inl (raise_errmsg py depth)
          else exc_bind (scanstring_at py depth r) (\<lambda>(k, r1).
            case skip_ws r1 of
              [] \<Rightarrow> Inl (raise_errmsg py depth)
            | c # r2 \<Rightarrow>
                if c \<noteq> 58 then Inl (raise_errmsg py depth)
                else exc_bind (scan_once py n depth (skip_ws r2)) (\<lambda>(v, r3).
                  case skip_ws r3 of
                    [] \<Rightarrow> Inl (raise_errmsg py depth)
                  | c' # r4 \<Rightarrow>
                      if c' = 125 then Inr (JObj (AList.update k v acc), r4)
                      else if c' = 44 then parse_object py n depth (skip_ws r4) (AList.update k v acc)
                      else Inl (raise_errmsg py depth))))"

text \<open>
  \<open>json.loads\<close>: white space, one value, white space, end of text.  Anything left over is
  "Extra data", a decoding error.
\<close>

definition json_loads :: "interpreter \<Rightarrow> pystr \<Rightarrow> py_exception + json" where
  "json_loads py s =
     exc_bind (scan_once py (2 * length s + 2) (recursion_limit py) (skip_ws s)) (\<lambda>(v, rest).
       if skip_ws rest = [] then Inr v else Inl JSONDecodeError)"

text \<open>The exceptions of \<open>json.loads\<close>.\<close>

definition scanner_error :: "py_exception \<Rightarrow> bool" where
  "scanner_error e = (e = JSONDecodeError \<or> e = RecursionError \<or> e = ValueError)"


section \<open>The world around the program\<close>

text \<open>
  A path of the file system holds nothing, something that cannot be opened (a directory, a
  file without permission), or a file.  The program opens its file in text mode, so a file
  is given by what reading makes of its bytes in the encoding of the locale: the text
  \<open>txt\<close> of \<open>File txt\<close>, or, for \<open>Undecodable\<close>, no text at all, because the bytes are not
  of that encoding (the one byte \<open>FF\<close> under UTF-8).
\<close>

datatype fnode = Absent | Denied | Undecodable | File pystr

type_synonym filesystem = "pystr \<Rightarrow> fnode"

text \<open>
  What may go wrong while \<open>update_news_data\<close> writes: nothing, the \<open>open\<close> itself, or a write
  after \<open>open\<close> has emptied the file and \<open>n\<close> characters have reached it.
\<close>

datatype write_fault = NoFault | OpenFault | WriteFault nat

text \<open>
  \<open>with open(path, "w") as f: json.dump(v, f, indent=2)\<close>: the outcome and the file system
  afterwards.
\<close>

definition open_w_dump :: "write_fault \<Rightarrow> filesystem \<Rightarrow> pystr \<Rightarrow> json \<Rightarrow> (py_exception + unit) \<times> filesystem" where
  "open_w_dump fault fs path v =
     (if fs path = Denied \<or> fault = OpenFault then (Inl OSError, fs)
      else case fault of
             WriteFault n \<Rightarrow> (Inl OSError, fs(path := File (take n (json_dumps v))))
           | _ \<Rightarrow> (Inr (), fs(path := File (json_dumps v))))"

text \<open>
  \<open>with open(path, "r") as f: json.load(f)\<close>: \<open>open\<close> raises for a path that holds no file,
  \<open>f.read()\<close> inside \<open>json.load\<close> raises for bytes that are no text, and \<open>json.loads\<close> reads
  the text.
\<close>

definition open_r_load :: "interpreter \<Rightarrow> filesystem \<Rightarrow> pystr \<Rightarrow> py_exception + json" where
  "open_r_load py fs path =
     (case fs path of
        Absent \<Rightarrow> Inl FileNotFoundError
      | Denied \<Rightarrow> Inl OSError
      | Undecodable \<Rightarrow> Inl UnicodeDecodeError
      | File txt \<Rightarrow> json_loads py txt)"

text \<open>
  The answer to \<open>requests.get(url, headers=...)\<close>: an exception of the transport, or a
  response with its status code and with what \<open>response.json()\<close> gives (\<open>None\<close>: the body is
  not JSON).  A \<open>network\<close> is \<open>requests.get\<close> as one process reaches it: a function of the
  request.
\<close>

record response =
  status_code :: nat
  json_result :: "json option"

type_synonym network = "pystr \<Rightarrow> (pystr \<times> pystr) list \<Rightarrow> py_exception + response"

definition raise_for_status :: "response \<Rightarrow> py_exception + unit" where
  "raise_for_status r =
     (if 400 \<le> status_code r \<and> status_code r < 600 then Inl (HTTPError (status_code r))
      else Inr ())"

definition response_json :: "response \<Rightarrow> py_exception + json" where
  "response_json r = (case json_result r of None \<Rightarrow> Inl JSONDecodeError | Some v \<Rightarrow> Inr v)"

text \<open>The process environment, and \<open>os.getenv\<close>.\<close>

type_synonym environ = "pystr \<Rightarrow> pystr option"




section \<open>\<open>news_feed_plugin.py\<close>\<close>

text \<open>
  The attributes of a \<open>NewsFeedManager\<close>.  What the program prints is not followed.
\<close>

record NewsFeedManager =
  ha_token :: pystr
  sensors :: "pystr list"
  output_file :: pystr

definition ha_url :: pystr where
  "ha_url = str ''http://192.168.123.199:8123''"



text \<open>The dictionary built for one item of a feed (lines 60 to 65).\<close>

definition make_article :: "json \<Rightarrow> py_exception + json" where
  "make_article item =
     exc_bind (py_getitem item (str ''pubDate'')) (\<lambda>published.
     exc_bind (py_getitem item (str ''title'')) (\<lambda>title.
     exc_bind (py_get item (str ''description'') (JStr (str ''No description''))) (\<lambda>description.
     exc_bind (py_getitem item (str ''link'')) (\<lambda>link.
       Inr (JObj [(str ''Published'', published), (str ''Title'', title),
                  (str ''Description'', description), (str ''Link'', link)])))))"

text \<open>The body of the loop over \<open>self.sensors\<close> (lines 52 to 66): the articles of one sensor.\<close>

definition fetch_sensor :: "network \<Rightarrow> NewsFeedManager \<Rightarrow> pystr \<Rightarrow> py_exception + json list" where
  "fetch_sensor net m sensor =
     exc_bind (net (ha_url @ str ''/api/states/'' @ sensor)
                   [(str ''Authorization'', str ''Bearer '' @ ha_token m)]) (\<lambda>response.
     exc_bind (raise_for_status response) (\<lambda>_.
     exc_bind (response_json response) (\<lambda>data.
     exc_bind (py_getitem data (str ''attributes'')) (\<lambda>attributes.
     exc_bind (py_getitem attributes (str ''rss'')) (\<lambda>rss.
     exc_bind (py_getitem rss (str ''channel'')) (\<lambda>channel.
     exc_bind (py_getitem channel (str ''item'')) (\<lambda>items.
     exc_bind (py_iter items) (\<lambda>its.
       map_exc make_article its))))))))"

text \<open>The loop itself (lines 50 to 66); \<open>articles\<close> is the list built so far.\<close>

fun fetch_loop :: "network \<Rightarrow> NewsFeedManager \<Rightarrow> pystr list \<Rightarrow> json list \<Rightarrow> py_exception + json list" where
  "fetch_loop net m [] articles = Inr articles"
| "fetch_loop net m (sensor # rest) articles =
     exc_bind (fetch_sensor net m sensor) (\<lambda>new. fetch_loop net m rest (articles @ new))"

text \<open>The \<open>try\<close> block of \<open>update_news_data\<close> (lines 50 to 70).\<close>

definition update_news_try :: "network \<Rightarrow> write_fault \<Rightarrow> NewsFeedManager \<Rightarrow> filesystem \<Rightarrow> (py_exception + unit) \<times> filesystem" where
  "update_news_try net fault m fs =
     (case fetch_loop net m (sensors m) [] of
        Inl e \<Rightarrow> (Inl e, fs)
      | Inr articles \<Rightarrow> open_w_dump fault fs (output_file m) (JArr articles))"

text \<open>\<open>update_news_data\<close>: \<open>except Exception\<close> turns every exception into \<open>False\<close>.\<close>

definition update_news_data :: "network \<Rightarrow> write_fault \<Rightarrow> NewsFeedManager \<Rightarrow> filesystem \<Rightarrow> bool \<times> filesystem" where
  "update_news_data net fault m fs =
     (case update_news_try net fault m fs of
        (Inl e, fs') \<Rightarrow> (False, fs')
      | (Inr u, fs') \<Rightarrow> (True, fs'))"


text \<open>
  \<open>get_file_contents\<close>: the two \<open>except\<close> clauses catch \<open>FileNotFoundError\<close> and
  \<open>json.JSONDecodeError\<close>; any other exception goes to the caller.
\<close>

definition get_file_contents :: "interpreter \<Rightarrow> filesystem \<Rightarrow> NewsFeedManager \<Rightarrow> py_exception + json" where
  "get_file_contents py fs m =
     (case open_r_load py fs (output_file m) of
        Inr v \<Rightarrow> Inr v
      | Inl e \<Rightarrow>
          if e = FileNotFoundError then Inr (JArr [])
          else if e = JSONDecodeError then Inr (JArr [])
          else Inl e)"

definition get_all_titles :: "interpreter \<Rightarrow> filesystem \<Rightarrow> NewsFeedManager \<Rightarrow> py_exception + json list" where
  "get_all_titles py fs m =
     exc_bind (get_file_contents py fs m) (\<lambda>articles.
     exc_bind (py_iter articles) (\<lambda>its.
       map_exc (\<lambda>article. py_getitem article (str ''Title'')) its))"

text \<open>The loop of \<open>get_article_info\<close> (lines 96 to 99).\<close>

fun find_article :: "json list \<Rightarrow> pystr \<Rightarrow> py_exception + json option" where
  "find_article [] title = Inr None"
| "find_article (article # rest) title =
     exc_bind (py_getitem article (str ''Title'')) (\<lambda>t.
       if t = JStr title then Inr (Some article) else find_article rest title)"

definition get_article_info :: "interpreter \<Rightarrow> filesystem \<Rightarrow> NewsFeedManager \<Rightarrow> pystr \<Rightarrow> py_exception + json option" where
  "get_article_info py fs m title =
     exc_bind (get_file_contents py fs m) (\<lambda>articles.
     exc_bind (py_iter articles) (\<lambda>its. find_article its title))"

text \<open>What a plugin function returns: a string, or a dictionary.\<close>

datatype plugin_result = Text pystr | Structured json

text \<open>\<open>"\n".join(f"{key}: {value}" for key, value in article.items())\<close>\<close>

definition article_block :: "(json \<Rightarrow> pystr) \<Rightarrow> json \<Rightarrow> py_exception + pystr" where
  "article_block rp article =
     exc_bind (py_items article) (\<lambda>kvs.
       Inr (join [10] (map (\<lambda>(key, v). key @ str '': '' @ py_format rp v) kvs)))"

definition get_file_data :: "(json \<Rightarrow> pystr) \<Rightarrow> interpreter \<Rightarrow> filesystem \<Rightarrow> NewsFeedManager \<Rightarrow> pystr \<Rightarrow> py_exception + plugin_result" where
  "get_file_data rp py fs m output_mode =
     exc_bind (get_file_contents py fs m) (\<lambda>file_contents.
       if output_mode = str ''text'' then
         (if \<not> py_truthy file_contents then Inr (Text [])
          else exc_bind (py_iter file_contents) (\<lambda>its.
               exc_bind (map_exc (article_block rp) its) (\<lambda>blocks.
                 Inr (Text (join [10, 10] blocks)))))
       else
         exc_bind (py_len file_contents) (\<lambda>n.
           Inr (Structured (JObj
             [(str ''operation'', JStr (str ''get_file_contents'')),
              (str ''articles'', file_contents),
              (str ''total_count'', JInt (int n)),
              (str ''message'', JStr (str ''File contains '' @ digits n @ str '' articles''))]))))"


section \<open>The data model of the specification\<close>

text \<open>
  An Article is a record of four strings; in the program it is the dictionary
  \<open>article_json\<close>, and an Article Collection is the list of these dictionaries.
\<close>

record article =
  published :: pystr
  title :: pystr
  description :: pystr
  link :: pystr

definition article_json :: "article \<Rightarrow> json" where
  "article_json a =
     JObj [(str ''Published'', JStr (published a)), (str ''Title'', JStr (title a)),
           (str ''Description'', JStr (description a)), (str ''Link'', JStr (link a))]"

definition collection_json :: "article list \<Rightarrow> json" where
  "collection_json as = JArr (map article_json as)"

text \<open>
  A string of Unicode text: every character is a code point that is not a surrogate.
\<close>

definition scalar_value :: "nat \<Rightarrow> bool" where
  "scalar_value c = (c < 55296 \<or> (57344 \<le> c \<and> c < 1114112))"

definition unicode_text :: "pystr \<Rightarrow> bool" where
  "unicode_text s = list_all scalar_value s"

text \<open>
  A Python string may hold surrogates as well.  \<open>json_safe\<close> are the strings of code points
  in which no high surrogate is directly followed by a low surrogate: Unicode text is of
  this kind, and so is a string with single surrogates.
\<close>

fun json_safe :: "pystr \<Rightarrow> bool" where
  "json_safe [] = True"
| "json_safe [c] = (c < 1114112)"
| "json_safe (c # d # s) =
     (c < 1114112 \<and> \<not> (high_surrogate c \<and> low_surrogate d) \<and> json_safe (d # s))"

definition valid_article :: "article \<Rightarrow> bool" where
  "valid_article a =
     (json_safe (published a) \<and> json_safe (title a) \<and>
      json_safe (description a) \<and> json_safe (link a))"

text \<open>
  The text after the escape of a high surrogate that \<open>scanstring\<close> does not take for the
  other half of a pair.
\<close>

definition safe_after_high :: "pystr \<Rightarrow> bool" where
  "safe_after_high t =
     (take 2 t \<noteq> [92, 117] \<or> (\<exists>u. decode_uXXXX (drop 2 t) = Some u \<and> \<not> low_surrogate u))"

text \<open>The text of one Article after \<open>json.dumps\<close>, at nesting level \<open>l\<close>.\<close>

definition encode_article :: "nat \<Rightarrow> article \<Rightarrow> pystr" where
  "encode_article l a = iterencode l (article_json a)"

text \<open>The field \<open>k\<close> of a JSON object, when the value is an object and has it.\<close>

definition field :: "json \<Rightarrow> pystr \<Rightarrow> json option" where
  "field v k = (case v of JObj kvs \<Rightarrow> map_of kvs k | _ \<Rightarrow> None)"

text \<open>
  The \<open>attributes.rss.channel.item\<close> sequence of a payload, when the payload contains one.
\<close>

definition payload_items :: "json \<Rightarrow> json list option" where
  "payload_items data =
     (case Option.bind (field data (str ''attributes'')) (\<lambda>a.
           Option.bind (field a (str ''rss'')) (\<lambda>r.
           Option.bind (field r (str ''channel'')) (\<lambda>c. field c (str ''item'')))) of
        Some (JArr its) \<Rightarrow> Some its
      | _ \<Rightarrow> None)"

text \<open>The item sequence that a source answers with, when it answers with one.\<close>

definition source_items :: "network \<Rightarrow> NewsFeedManager \<Rightarrow> pystr \<Rightarrow> json list option" where
  "source_items net m sensor =
     (case net (ha_url @ str ''/api/states/'' @ sensor)
               [(str ''Authorization'', str ''Bearer '' @ ha_token m)] of
        Inl e \<Rightarrow> None
      | Inr r \<Rightarrow> (case json_result r of None \<Rightarrow> None | Some data \<Rightarrow> payload_items data))"

text \<open>
  The Article of a feed item in the words of the specification: \<open>Published\<close>, \<open>Title\<close> and
  \<open>Link\<close> are the item's \<open>pubDate\<close>, \<open>title\<close> and \<open>link\<close>, which are required; \<open>Description\<close>
  is the item's \<open>description\<close>, or the sentinel when the item has none.
\<close>

definition spec_article :: "json \<Rightarrow> json option" where
  "spec_article item =
     (case (field item (str ''pubDate''), field item (str ''title''), field item (str ''link'')) of
        (Some p, Some t, Some l) \<Rightarrow>
          Some (JObj [(str ''Published'', p), (str ''Title'', t),
                      (str ''Description'',
                         (case field item (str ''description'') of
                            Some d \<Rightarrow> d
                          | None \<Rightarrow> JStr (str ''No description''))),
                      (str ''Link'', l)])
      | _ \<Rightarrow> None)"

text \<open>
  The text block of an Article in the words of the specification: the four \<open>field: value\<close>
  pairs in the order Published, Title, Description, Link, joined by line breaks.
\<close>

definition spec_text_block :: "article \<Rightarrow> pystr" where
  "spec_text_block a =
     join [10] [str ''Published: '' @ published a, str ''Title: '' @ title a,
                str ''Description: '' @ description a, str ''Link: '' @ link a]"


section \<open>The scenarios of the specification\<close>

definition feed_payload :: "json list \<Rightarrow> json" where
  "feed_payload its =
     JObj [(str ''attributes'',
            JObj [(str ''rss'', JObj [(str ''channel'', JObj [(str ''item'', JArr its)])])])]"

definition item_a :: json where
  "item_a = JObj [(str ''pubDate'', JStr (str ''Mon, 01 Jan 2024'')),
                  (str ''title'', JStr (str ''A'')), (str ''link'', JStr (str ''http://x''))]"

definition item_b :: json where
  "item_b = JObj [(str ''pubDate'', JStr (str ''Tue, 02 Jan 2024'')),
                  (str ''title'', JStr (str ''B'')), (str ''description'', JStr (str ''d'')),
                  (str ''link'', JStr (str ''http://y''))]"

definition article_a :: article where
  "article_a = \<lparr>published = str ''Mon, 01 Jan 2024'', title = str ''A'',
                 description = str ''No description'', link = str ''http://x''\<rparr>"

definition article_b :: article where
  "article_b = \<lparr>published = str ''Tue, 02 Jan 2024'', title = str ''B'',
                 description = str ''d'', link = str ''http://y''\<rparr>"

text \<open>A second Article with the title of \<open>article_a\<close>.\<close>

definition article_a2 :: article where
  "article_a2 = \<lparr>published = str ''Wed, 03 Jan 2024'', title = str ''A'',
                  description = str ''again'', link = str ''http://z''\<rparr>"

definition sensor_url :: "pystr \<Rightarrow> pystr" where
  "sensor_url sensor = ha_url @ str ''/api/states/'' @ sensor"

text \<open>Two sources that answer, and the same two with the second one failing.\<close>

definition two_feeds :: network where
  "two_feeds url headers =
     (if url = sensor_url (str ''sensor.a'')
      then Inr \<lparr>status_code = 200, json_result = Some (feed_payload [item_a])\<rparr>
      else if url = sensor_url (str ''sensor.b'')
      then Inr \<lparr>status_code = 200, json_result = Some (feed_payload [item_b])\<rparr>
      else Inl RequestException)"

definition one_feed_down :: network where
  "one_feed_down url headers =
     (if url = sensor_url (str ''sensor.a'')
      then Inr \<lparr>status_code = 200, json_result = Some (feed_payload [item_a])\<rparr>
      else if url = sensor_url (str ''sensor.b'')
      then Inr \<lparr>status_code = 500, json_result = None\<rparr>
      else Inl RequestException)"


definition two_sensors :: NewsFeedManager where
  "two_sensors = \<lparr>ha_token = str ''secret'', sensors = [str ''sensor.a'', str ''sensor.b''],
                  output_file = str ''./news.json''\<rparr>"

definition no_files :: filesystem where
  "no_files path = Absent"

definition stored :: "article list \<Rightarrow> filesystem" where
  "stored as = no_files(str ''./news.json'' := File (json_dumps (collection_json as)))"

definition holding :: "pystr \<Rightarrow> filesystem" where
  "holding doc = no_files(str ''./news.json'' := File doc)"

definition garbled :: filesystem where
  "garbled = no_files(str ''./news.json'' := Undecodable)"

text \<open>A stand-in for \<open>repr\<close>; the scenarios format strings only.\<close>

definition blank_repr :: "json \<Rightarrow> pystr" where
  "blank_repr v = []"

text \<open>
  An interpreter with the defaults of CPython 3.11, in which the calls that lead to the
  scanner have used ten of the 1000 levels of recursion.  The conversion of float literals
  is a stand-in; the scenarios read no float.
\<close>

definition literal_itself :: "pystr \<Rightarrow> pystr" where
  "literal_itself lit = lit"

definition cpython :: interpreter where
  "cpython = \<lparr>recursion_limit = 990, errmsg_levels = 3, int_max_str_digits = 4300,
              float_of_literal = literal_itself\<rparr>"




text \<open>An environment with the token of \<open>env_secret\<close> and one more variable.\<close>

definition env_secret_and_more :: environ where
  "env_secret_and_more name =
     (if name = str ''HA_TOKEN'' then Some (str ''secret'')
      else if name = str ''OPENAI_API_KEY'' then Some (str ''key'')
      else None)"






section \<open>The scanner has fuel enough\<close>

text \<open>
  Every call of the scanner that returns has consumed input, so the fuel that \<open>json_loads\<close>
  gives is never used up: with more fuel the answer is the same.
\<close>

lemma skip_ws_length: "length (skip_ws s) \<le> length s"
  by (simp add: skip_ws_def length_dropWhile_le)

lemma skip_ws_Cons_length: "skip_ws s = c # r \<Longrightarrow> length r < length s"
  using skip_ws_length [of s] by simp

lemma cons_char_Inr:
  "cons_char c res = Inr (x, r) \<Longrightarrow> \<exists>y. res = Inr (y, r) \<and> x = c # y"
  by (cases res) (auto simp: cons_char_def)

lemma scanstring_shrinks: "scanstring s = Inr (x, r) \<Longrightarrow> length r < length s"
proof (induction "length s" arbitrary: s x rule: less_induct)
  case less
  have IH: "length r \<le> length t" if "length t < length s" "scanstring t = Inr (y, r)" for t y
    using less.hyps [OF that] by simp
  from less.prems obtain c r0 where s: "s = c # r0"
    by (cases s) auto
  from less.prems [unfolded s scanstring.simps]
  show ?case
    unfolding s
    by (auto split: if_splits list.splits option.splits dest!: cons_char_Inr
          dest: IH [unfolded s, rotated] simp del: scanstring.simps)
qed


lemma scanstring_at_Inr [simp]:
  "scanstring_at py depth s = Inr res \<longleftrightarrow> scanstring s = Inr res"
  by (simp add: scanstring_at_def split: sum.splits)

lemma scanstring_at_Inl:
  "scanstring_at py depth s = Inl e \<Longrightarrow> e = raise_errmsg py depth"
  by (simp add: scanstring_at_def split: sum.splits)

lemma scanstring_at_returns: "scanstring s = Inr res \<Longrightarrow> scanstring_at py depth s = Inr res"
  by simp

lemma match_number_shrinks: "match_number py s = Some (Inr (v, r)) \<Longrightarrow> length r < length s"
proof -
  have d: "length (dropWhile is_digit t) \<le> length t" for t
    by (rule length_dropWhile_le)
  assume "match_number py s = Some (Inr (v, r))"
  then show ?thesis
    using d [of "tl s"] d [of "tl (tl s)"]
    by (auto simp: match_number_def Let_def split: list.splits if_splits)
qed

lemma literal_shrinks: "take k s = c # w \<Longrightarrow> length (drop k s) < length s"
  by (cases s; cases k) auto

lemma scan_shrinks:
  "(scan_once py n depth s = Inr (v, r) \<longrightarrow> length r < length s)
   \<and> (parse_array py n depth s xs = Inr (v, r) \<longrightarrow> length r < length s)
   \<and> (parse_object py n depth s kvs = Inr (v, r) \<longrightarrow> length r < length s)"
proof (induction n arbitrary: s v r xs kvs depth)
  case 0
  then show ?case by simp
next
  case (Suc n)
  have so: "length r < length s" if "scan_once py n depth s = Inr (v, r)" for s v r depth
    using Suc.IH [of depth s v r] that by simp
  have pa: "length r < length s" if "parse_array py n depth s xs = Inr (v, r)" for s v r xs depth
    using Suc.IH [of depth s v r xs] that by simp
  have po: "length r < length s" if "parse_object py n depth s kvs = Inr (v, r)" for s v r kvs depth
    using Suc.IH [of depth s v r _ kvs] that by simp
  have 1: "length r < length s" if "scan_once py (Suc n) depth s = Inr (v, r)"
  proof (cases s)
    case Nil
    with that show ?thesis by simp
  next
    case (Cons c t)
    from that show ?thesis
      unfolding Cons scan_once.simps list.case
      by (auto simp: str_def split: if_splits list.splits sum.splits option.splits prod.splits
            dest!: scanstring_shrinks skip_ws_Cons_length pa po match_number_shrinks
            dest: literal_shrinks
            elim!: exc_bind.elims)
  qed
  have 2: "length r < length s" if "parse_array py (Suc n) depth s xs = Inr (v, r)"
  proof -
    from that obtain v1 r1 where a: "scan_once py n depth s = Inr (v1, r1)"
      by (cases "scan_once py n depth s") auto
    from that a obtain c r' where b: "skip_ws r1 = c # r'"
      by (cases "skip_ws r1") auto
    from so [OF a] skip_ws_Cons_length [OF b] have l: "length r' < length s" by simp
    from that a b consider "r = r'" | "parse_array py n depth (skip_ws r') (xs @ [v1]) = Inr (v, r)"
      by (auto split: if_splits)
    then show ?thesis
    proof cases
      case 1
      with l show ?thesis by simp
    next
      case 2
      from pa [OF 2] skip_ws_length [of r'] l show ?thesis by simp
    qed
  qed
  have 3: "length r < length s" if "parse_object py (Suc n) depth s kvs = Inr (v, r)"
  proof -
    from that obtain t where s: "s = 34 # t"
      by (cases s) (auto split: if_splits)
    from that s obtain k r1 where a: "scanstring t = Inr (k, r1)"
      by (cases "scanstring_at py depth t") auto
    then have a': "scanstring_at py depth t = Inr (k, r1)" by simp
    from that s a' obtain r2 where b: "skip_ws r1 = 58 # r2"
      by (cases "skip_ws r1") (auto split: if_splits)
    from that s a' b obtain v1 r3 where c: "scan_once py n depth (skip_ws r2) = Inr (v1, r3)"
      by (cases "scan_once py n depth (skip_ws r2)") auto
    from that s a' b c obtain c' r4 where d: "skip_ws r3 = c' # r4"
      by (cases "skip_ws r3") auto
    from scanstring_shrinks [OF a] skip_ws_Cons_length [OF b] so [OF c] skip_ws_length [of r2]
         skip_ws_Cons_length [OF d] s
    have l: "length r4 < length s" by simp
    from that s a' b c d
    consider "r = r4" | "parse_object py n depth (skip_ws r4) (AList.update k v1 kvs) = Inr (v, r)"
      by (auto split: if_splits)
    then show ?thesis
    proof cases
      case 1
      with l show ?thesis by simp
    next
      case 2
      from po [OF 2] skip_ws_length [of r4] l show ?thesis by simp
    qed
  qed
  from 1 2 3 show ?case by blast
qed


lemma scan_once_shrinks: "scan_once py n depth s = Inr (v, r) \<Longrightarrow> length r < length s"
  using scan_shrinks [of py n depth s v r] by simp

lemma fuel_stable:
  "(2 * length s + 1 \<le> n \<longrightarrow> n \<le> n' \<longrightarrow> scan_once py n' depth s = scan_once py n depth s)
   \<and> (2 * length s + 2 \<le> n \<longrightarrow> n \<le> n' \<longrightarrow>
        parse_array py n' depth s xs = parse_array py n depth s xs)
   \<and> (2 * length s + 2 \<le> n \<longrightarrow> n \<le> n' \<longrightarrow>
        parse_object py n' depth s kvs = parse_object py n depth s kvs)"
proof (induction n arbitrary: s n' xs kvs depth)
  case 0
  show ?case by simp
next
  case (Suc n)
  have so: "scan_once py m depth s = scan_once py n depth s"
    if "2 * length s + 1 \<le> n" "n \<le> m" for s m depth
    using Suc.IH [of s m depth] that by simp
  have pa: "parse_array py m depth s xs = parse_array py n depth s xs"
    if "2 * length s + 2 \<le> n" "n \<le> m" for s m xs depth
    using Suc.IH [of s m depth xs] that by simp
  have po: "parse_object py m depth s kvs = parse_object py n depth s kvs"
    if "2 * length s + 2 \<le> n" "n \<le> m" for s m kvs depth
    using Suc.IH [of s m depth _ kvs] that by simp
  have 1: "scan_once py n' depth s = scan_once py (Suc n) depth s"
    if b: "2 * length s + 1 \<le> Suc n" and le: "Suc n \<le> n'"
  proof -
    from le obtain m where n': "n' = Suc m" and m: "n \<le> m"
      by (cases n') auto
    show ?thesis
    proof (cases s)
      case Nil
      then show ?thesis by (simp add: n')
    next
      case (Cons c t)
      have eqa: "parse_array py m k (d # r') [] = parse_array py n k (d # r') []"
        and eqo: "parse_object py m k (d # r') [] = parse_object py n k (d # r') []"
        if "skip_ws t = d # r'" for d r' k
      proof -
        from skip_ws_Cons_length [OF that] b Cons have "2 * length (d # r') + 2 \<le> n" by simp
        then show "parse_array py m k (d # r') [] = parse_array py n k (d # r') []"
          and "parse_object py m k (d # r') [] = parse_object py n k (d # r') []"
          using m by (rule pa, rule po)
      qed
      show ?thesis
        unfolding n' Cons scan_once.simps list.case
        by (simp add: eqa eqo split: list.splits)
    qed
  qed
  have 2: "parse_array py n' depth s xs = parse_array py (Suc n) depth s xs"
    if b: "2 * length s + 2 \<le> Suc n" and le: "Suc n \<le> n'"
  proof -
    from le obtain m where n': "n' = Suc m" and m: "n \<le> m"
      by (cases n') auto
    from b have "2 * length s + 1 \<le> n" by simp
    then have first: "scan_once py m depth s = scan_once py n depth s" using m by (rule so)
    have next_eq: "parse_array py m depth (skip_ws r') ys = parse_array py n depth (skip_ws r') ys"
      if "scan_once py n depth s = Inr (v, r)" "skip_ws r = c # r'" for v r c r' ys
    proof -
      from scan_once_shrinks [OF that(1)] skip_ws_Cons_length [OF that(2)] skip_ws_length [of r'] b
      have "2 * length (skip_ws r') + 2 \<le> n" by simp
      then show ?thesis using m by (rule pa)
    qed
    show ?thesis
      unfolding n' parse_array.simps first
      by (cases "scan_once py n depth s") (auto simp: next_eq split: list.splits)
  qed
  have 3: "parse_object py n' depth s kvs = parse_object py (Suc n) depth s kvs"
    if b: "2 * length s + 2 \<le> Suc n" and le: "Suc n \<le> n'"
  proof -
    from le obtain m where n': "n' = Suc m" and m: "n \<le> m"
      by (cases n') auto
    have value_eq: "scan_once py m depth (skip_ws r2) = scan_once py n depth (skip_ws r2)"
      if "s = q # t" "scanstring t = Inr (k, r1)" "skip_ws r1 = c # r2" for q t k r1 c r2
    proof -
      from scanstring_shrinks [OF that(2)] skip_ws_Cons_length [OF that(3)] skip_ws_length [of r2]
           b that(1)
      have "2 * length (skip_ws r2) + 1 \<le> n" by simp
      then show ?thesis using m by (rule so)
    qed
    have next_eq: "parse_object py m depth (skip_ws r4) ys = parse_object py n depth (skip_ws r4) ys"
      if "s = q # t" "scanstring t = Inr (k, r1)" "skip_ws r1 = c # r2"
         "scan_once py n depth (skip_ws r2) = Inr (v, r3)" "skip_ws r3 = c' # r4"
      for q t k r1 c r2 v r3 c' r4 ys
    proof -
      from scanstring_shrinks [OF that(2)] skip_ws_Cons_length [OF that(3)] skip_ws_length [of r2]
           scan_once_shrinks [OF that(4)] skip_ws_Cons_length [OF that(5)] skip_ws_length [of r4]
           b that(1)
      have "2 * length (skip_ws r4) + 2 \<le> n" by simp
      then show ?thesis using m by (rule po)
    qed
    show ?thesis
    proof (cases s)
      case Nil
      then show ?thesis by (simp add: n')
    next
      case (Cons q t)
      show ?thesis
      proof (cases "scanstring t")
        case (Inl e)
        then show ?thesis by (simp add: n' Cons scanstring_at_def)
      next
        case (Inr kr)
        obtain k r1 where kr: "kr = (k, r1)" by (cases kr)
        from Inr kr have at: "scanstring_at py depth t = Inr (k, r1)" by simp
        show ?thesis
        proof (cases "skip_ws r1")
          case Nil
          then show ?thesis by (simp add: n' Cons at)
        next
          case c: (Cons c r2)
          note v = value_eq [OF Cons Inr [unfolded kr] c]
          show ?thesis
          proof (cases "scan_once py n depth (skip_ws r2)")
            case (Inl e)
            then show ?thesis by (simp add: n' Cons at c v)
          next
            case vr: (Inr vr3)
            obtain v1 r3 where vr3: "vr3 = (v1, r3)" by (cases vr3)
            show ?thesis
              using next_eq [OF Cons Inr [unfolded kr] c vr [unfolded vr3]]
              by (simp add: n' Cons at c v vr vr3 split: list.splits)
          qed
        qed
      qed
    qed
  qed
  from 1 2 3 show ?case by blast
qed

lemma json_loads_fuel:
  assumes "2 * length s + 2 \<le> n"
  shows "scan_once py n depth (skip_ws s) = scan_once py (2 * length s + 2) depth (skip_ws s)"
proof -
  from skip_ws_length [of s] have "2 * length (skip_ws s) + 1 \<le> 2 * length s + 2" by simp
  with fuel_stable [of "skip_ws s" "2 * length s + 2" n py depth] assms show ?thesis by simp
qed

text \<open>
  What the scanner raises is \<open>JSONDecodeError\<close>, \<open>RecursionError\<close> or \<open>ValueError\<close>: with the
  fuel of \<open>json_loads\<close> it does not run out.
\<close>

lemma raise_errmsg_error [simp]: "scanner_error (raise_errmsg py depth)"
  by (simp add: scanner_error_def raise_errmsg_def)

lemma scanner_error_simps [simp]:
  "scanner_error JSONDecodeError" "scanner_error RecursionError" "scanner_error ValueError"
  "\<not> scanner_error OutOfFuel"
  by (simp_all add: scanner_error_def)

lemma match_number_Inl: "match_number py s = Some (Inl e) \<Longrightarrow> e = ValueError"
  by (auto simp: match_number_def Let_def split: list.splits if_splits)

lemma scan_raises:
  "(2 * length s + 1 \<le> n \<longrightarrow> scan_once py n depth s = Inl e \<longrightarrow> scanner_error e)
   \<and> (2 * length s + 2 \<le> n \<longrightarrow> parse_array py n depth s xs = Inl e \<longrightarrow> scanner_error e)
   \<and> (2 * length s + 2 \<le> n \<longrightarrow> parse_object py n depth s kvs = Inl e \<longrightarrow> scanner_error e)"
proof (induction n arbitrary: s xs kvs depth)
  case 0
  show ?case by simp
next
  case (Suc n)
  have so: "scanner_error e"
    if "2 * length s + 1 \<le> n" "scan_once py n depth s = Inl e" for s depth
    using Suc.IH [of s depth] that by simp
  have pa: "scanner_error e"
    if "2 * length s + 2 \<le> n" "parse_array py n depth s xs = Inl e" for s xs depth
    using Suc.IH [of s depth xs] that by simp
  have po: "scanner_error e"
    if "2 * length s + 2 \<le> n" "parse_object py n depth s kvs = Inl e" for s kvs depth
    using Suc.IH [of s depth _ kvs] that by simp
  have 1: "scanner_error e"
    if b: "2 * length s + 1 \<le> Suc n" and r: "scan_once py (Suc n) depth s = Inl e"
  proof (cases s)
    case Nil
    with r show ?thesis by simp
  next
    case (Cons c t)
    have inner: "2 * length (d # r') + 2 \<le> n" if "skip_ws t = d # r'" for d r'
      using skip_ws_Cons_length [OF that] b Cons by simp
    from r show ?thesis
      unfolding Cons scan_once.simps list.case
      by (auto split: if_splits list.splits sum.splits option.splits
            dest!: scanstring_at_Inl match_number_Inl
            dest: pa [OF inner] po [OF inner]
            elim!: exc_bind.elims)
  qed
  have 2: "scanner_error e"
    if b: "2 * length s + 2 \<le> Suc n" and r: "parse_array py (Suc n) depth s xs = Inl e"
  proof (cases "scan_once py n depth s")
    case (Inl e')
    with r have "e' = e" by simp
    with Inl b show ?thesis by (auto intro: so)
  next
    case (Inr vr)
    obtain v r1 where vr: "vr = (v, r1)" by (cases vr)
    show ?thesis
    proof (cases "skip_ws r1")
      case Nil
      with r Inr vr show ?thesis by auto
    next
      case (Cons c r')
      from scan_once_shrinks [OF Inr [unfolded vr]] skip_ws_Cons_length [OF Cons]
           skip_ws_length [of r'] b
      have "2 * length (skip_ws r') + 2 \<le> n" by simp
      from pa [OF this] r Inr vr Cons show ?thesis
        by (auto split: if_splits)
    qed
  qed
  have 3: "scanner_error e"
    if b: "2 * length s + 2 \<le> Suc n" and r: "parse_object py (Suc n) depth s kvs = Inl e"
  proof (cases s)
    case Nil
    with r show ?thesis by auto
  next
    case (Cons q t)
    show ?thesis
    proof (cases "q = 34")
      case False
      with r Cons show ?thesis by auto
    next
      case True
      show ?thesis
      proof (cases "scanstring_at py depth t")
        case (Inl e')
        with r Cons True have "e' = e" by simp
        with scanstring_at_Inl [OF Inl] show ?thesis by simp
      next
        case (Inr kr)
        obtain k r1 where kr: "kr = (k, r1)" by (cases kr)
        from Inr kr have st: "scanstring t = Inr (k, r1)" by simp
        show ?thesis
        proof (cases "skip_ws r1")
          case Nil
          with r Cons True Inr kr show ?thesis by auto
        next
          case c: (Cons c r2)
          show ?thesis
          proof (cases "c = 58")
            case False
            with r Cons True Inr kr c show ?thesis by auto
          next
            case colon: True
            from scanstring_shrinks [OF st] skip_ws_Cons_length [OF c] skip_ws_length [of r2]
                 b Cons
            have b2: "2 * length (skip_ws r2) + 1 \<le> n" by simp
            show ?thesis
            proof (cases "scan_once py n depth (skip_ws r2)")
              case (Inl e')
              with r Cons True Inr kr c colon have "e' = e" by simp
              with so [OF b2] Inl show ?thesis by simp
            next
              case vr: (Inr vr3)
              obtain v1 r3 where vr3: "vr3 = (v1, r3)" by (cases vr3)
              show ?thesis
              proof (cases "skip_ws r3")
                case Nil
                with r Cons True Inr kr c colon vr vr3 show ?thesis by auto
              next
                case d: (Cons c' r4)
                from scanstring_shrinks [OF st] skip_ws_Cons_length [OF c] skip_ws_length [of r2]
                     scan_once_shrinks [OF vr [unfolded vr3]] skip_ws_Cons_length [OF d]
                     skip_ws_length [of r4] b Cons
                have "2 * length (skip_ws r4) + 2 \<le> n" by simp
                from po [OF this] r Cons True Inr kr c colon vr vr3 d show ?thesis
                  by (auto split: if_splits)
              qed
            qed
          qed
        qed
      qed
    qed
  qed
  from 1 2 3 show ?case by blast
qed

lemma json_loads_raises: "json_loads py s = Inl e \<Longrightarrow> scanner_error e"
proof -
  assume r: "json_loads py s = Inl e"
  from skip_ws_length [of s] have b: "2 * length (skip_ws s) + 1 \<le> 2 * length s + 2" by simp
  show ?thesis
  proof (cases "scan_once py (2 * length s + 2) (recursion_limit py) (skip_ws s)")
    case (Inl e')
    with r have "e' = e" by (simp add: json_loads_def)
    with scan_raises [of "skip_ws s" "2 * length s + 2" py "recursion_limit py" e] b Inl
    show ?thesis by simp
  next
    case (Inr vr)
    with r show ?thesis
      by (auto simp: json_loads_def split: if_splits prod.splits)
  qed
qed

section \<open>The \<open>json\<close> round trip\<close>

lemma hexval_hexdigit: "d < 16 \<Longrightarrow> hexval (hexdigit d) = Some d"
  by (auto simp: hexval_def hexdigit_def)

lemma hex_split:
  fixes n :: nat
  shows "n div 4096 * 4096 + n div 256 mod 16 * 256 + n div 16 mod 16 * 16 + n mod 16 = n"
proof -
  define a where "a = n div 16"
  define b where "b = a div 16"
  define c where "c = b div 16"
  have 1: "n = 16 * a + n mod 16" by (simp add: a_def)
  have 2: "a = 16 * b + a mod 16" by (simp add: b_def)
  have 3: "b = 16 * c + b mod 16" by (simp add: c_def)
  have b: "n div 256 = b" by (simp add: a_def b_def div_mult2_eq)
  have c: "n div 4096 = c" by (simp add: a_def b_def c_def div_mult2_eq)
  have a: "n div 16 = a" by (simp add: a_def)
  show ?thesis
    unfolding a b c using 1 2 3 by linarith
qed

lemma decode_hex4: "n < 65536 \<Longrightarrow> decode_uXXXX (hex4 n @ rest) = Some n"
proof -
  assume n: "n < 65536"
  have d: "n div 4096 < 16" using n by (simp add: less_mult_imp_div_less)
  have a: "n div 4096 mod 16 = n div 4096" using d by simp
  have h: "hexval (hexdigit (n div 4096)) = Some (n div 4096)"
    using d by (rule hexval_hexdigit)
  show ?thesis
    by (simp add: decode_uXXXX_def hex4_def hexval_hexdigit a h hex_split)
qed

lemma length_hex4: "length (hex4 n) = 4"
  by (simp add: hex4_def)

lemma unicode_text_safe: "unicode_text s \<Longrightarrow> json_safe s"
  by (induction s rule: json_safe.induct)
     (auto simp: unicode_text_def scalar_value_def high_surrogate_def)

lemma escape_two_chars:
  assumes "c \<in> {92, 34, 8, 12, 10, 13, 9}"
  obtains x where "escape_char c = [92, x]" "x \<noteq> 117" "backslash x = Some c"
  using assms by (auto simp: escape_char_def backslash_def)

lemma escape_forms:
  assumes "c < 1114112"
  obtains (two) x where "escape_char c = [92, x]" "x \<noteq> 117" "backslash x = Some c"
    | (plain) "escape_char c = [c]" "32 \<le> c" "c \<noteq> 34" "c \<noteq> 92"
    | (bmp) "escape_char c = 92 # 117 # hex4 c" "c < 65536"
    | (astral) v where "escape_char c = 92 # 117 # hex4 (55296 + v div 1024) @ 92 # 117 # hex4 (56320 + v mod 1024)"
        "c = 65536 + v" "v < 1048576"
proof -
  consider "c \<in> {92, 34, 8, 12, 10, 13, 9}"
    | "c \<notin> {92, 34, 8, 12, 10, 13, 9}" "32 \<le> c" "c \<le> 126"
    | "c \<notin> {92, 34, 8, 12, 10, 13, 9}" "\<not> (32 \<le> c \<and> c \<le> 126)" "c < 65536"
    | "65536 \<le> c"
    by fastforce
  then show ?thesis
  proof cases
    case 1
    then show ?thesis using two by (rule escape_two_chars)
  next
    case 2
    then show ?thesis using plain by (auto simp: escape_char_def)
  next
    case 3
    then show ?thesis using bmp by (auto simp: escape_char_def)
  next
    case 4
    define v where "v = c - 65536"
    have v: "v < 1048576" "c = 65536 + v" using 4 assms by (auto simp: v_def)
    have vd: "v div 1024 mod 1024 = v div 1024" using v(1) by simp
    have "escape_char c = 92 # 117 # hex4 (55296 + v div 1024) @ 92 # 117 # hex4 (56320 + v mod 1024)"
      using 4 by (simp add: escape_char_def v_def [symmetric] vd)
    then show ?thesis using v astral by blast
  qed
qed

lemma safe_after_escape:
  assumes "d < 1114112" and "\<not> low_surrogate d"
  shows "safe_after_high (escape_char d @ t)"
  using assms(1)
proof (cases d rule: escape_forms)
  case (two x)
  then show ?thesis by (simp add: safe_after_high_def)
next
  case plain
  then show ?thesis by (simp add: safe_after_high_def)
next
  case bmp
  then show ?thesis
    using assms(2) by (simp add: safe_after_high_def decode_hex4)
next
  case (astral v)
  have h1: "55296 + v div 1024 < 65536" using astral(3) by simp
  show ?thesis
    using astral(3) by (simp add: safe_after_high_def astral(1) decode_hex4 [OF h1] low_surrogate_def)
qed

lemma safe_after_quote: "safe_after_high (34 # t)"
  by (simp add: safe_after_high_def)

lemma scan_escape_char:
  assumes "c < 1114112" and "high_surrogate c \<longrightarrow> safe_after_high t"
  shows "scanstring (escape_char c @ t) = cons_char c (scanstring t)"
  using assms(1)
proof (cases c rule: escape_forms)
  case (two x)
  then show ?thesis by simp
next
  case plain
  then show ?thesis by auto
next
  case bmp
  show ?thesis
  proof (cases "high_surrogate c")
    case False
    then show ?thesis
      using bmp by (simp add: decode_hex4 length_hex4)
  next
    case True
    with assms(2) have "safe_after_high t" by simp
    then consider "take 2 t \<noteq> [92, 117]"
      | u where "take 2 t = [92, 117]" "decode_uXXXX (drop 2 t) = Some u" "\<not> low_surrogate u"
      by (auto simp: safe_after_high_def)
    then show ?thesis
    proof cases
      case 1
      then show ?thesis using bmp by (simp add: decode_hex4 length_hex4)
    next
      case 2
      then show ?thesis
        using bmp by (simp add: decode_hex4 length_hex4)
    qed
  qed
next
  case (astral v)
  have h1: "55296 + v div 1024 < 65536" using astral(3) by simp
  have h2: "56320 + v mod 1024 < 65536" by simp
  have hb: "v div 1024 \<le> 1023" using astral(3) by simp
  have hl: "v mod 1024 \<le> 1023" by (simp add: less_Suc_eq_le [symmetric])
  show ?thesis
    by (simp add: astral(1) decode_hex4 [OF h1] decode_hex4 [OF h2] length_hex4 hb hl
          astral(2) [symmetric] high_surrogate_def low_surrogate_def)
qed

lemma scan_escaped:
  "json_safe s \<Longrightarrow> scanstring (concat (map escape_char s) @ 34 # rest) = Inr (s, rest)"
proof (induction s rule: json_safe.induct)
  case 1
  then show ?case by simp
next
  case (2 c)
  then show ?case
    by (simp add: scan_escape_char safe_after_quote cons_char_def)
next
  case (3 c d s)
  then have c: "c < 1114112" and pair: "\<not> (high_surrogate c \<and> low_surrogate d)"
    and rest: "json_safe (d # s)"
    by simp_all
  from rest have d: "d < 1114112" by (cases s) simp_all
  have "high_surrogate c \<longrightarrow> safe_after_high (escape_char d @ concat (map escape_char s) @ 34 # rest)"
    using pair d by (auto intro: safe_after_escape)
  from scan_escape_char [OF c this] "3.IH" [OF rest]
  show ?case by (simp add: cons_char_def)
qed

lemma hexval_less: "hexval c = Some d \<Longrightarrow> d < 16"
  by (auto simp: hexval_def split: if_splits)

lemma decode_less: "decode_uXXXX s = Some u \<Longrightarrow> u < 65536"
proof -
  assume "decode_uXXXX s = Some u"
  then obtain a b c d where m: "map hexval (take 4 s) = [Some a, Some b, Some c, Some d]"
    and u: "u = a * 4096 + b * 256 + c * 16 + d"
    by (auto simp: decode_uXXXX_def split: list.splits option.splits)
  from m obtain w x y z where "hexval w = Some a" "hexval x = Some b" "hexval y = Some c"
    "hexval z = Some d"
    by (auto simp: map_eq_Cons_conv)
  then have "a < 16" "b < 16" "c < 16" "d < 16"
    by (auto dest: hexval_less)
  with u show ?thesis by simp
qed

lemma unicode_text_drop: "unicode_text s \<Longrightarrow> unicode_text (drop k s)"
  unfolding unicode_text_def list_all_iff by (meson in_set_dropD)

lemma json_safe_Cons:
  "json_safe (c # x) \<longleftrightarrow>
     c < 1114112 \<and> json_safe x \<and> (high_surrogate c \<longrightarrow> (case x of [] \<Rightarrow> True | d # _ \<Rightarrow> \<not> low_surrogate d))"
  by (cases x) auto

text \<open>What \<open>scanstring\<close> reads from text is a string that \<open>json\<close> keeps.\<close>

lemma scanstring_safe_head:
  "unicode_text s \<Longrightarrow> scanstring s = Inr (x, r) \<Longrightarrow>
     json_safe x \<and>
     (case x of
        [] \<Rightarrow> True
      | h # _ \<Rightarrow> low_surrogate h \<longrightarrow> take 2 s = [92, 117] \<and> decode_uXXXX (drop 2 s) = Some h)"
proof (induction "length s" arbitrary: s x rule: less_induct)
  case less
  have IH: "json_safe y \<and>
     (case y of
        [] \<Rightarrow> True
      | h # _ \<Rightarrow> low_surrogate h \<longrightarrow> take 2 t = [92, 117] \<and> decode_uXXXX (drop 2 t) = Some h)"
    if "length t < length s" "unicode_text t" "scanstring t = Inr (y, r)" for t y
    using less.hyps [OF that] .
  from less.prems(2) obtain c r0 where s: "s = c # r0"
    by (cases s) auto
  from less.prems(1) s have c: "scalar_value c" and r0: "unicode_text r0"
    by (simp_all add: unicode_text_def)
  note scan = less.prems(2) [unfolded s scanstring.simps]
  show ?case
  proof (cases "c = 34")
    case True
    with scan show ?thesis by simp
  next
    case not_quote: False
    show ?thesis
    proof (cases "c = 92")
      case False
      with scan not_quote obtain y where y: "scanstring r0 = Inr (y, r)" and x: "x = c # y"
        by (auto split: if_splits dest!: cons_char_Inr)
      from IH [OF _ r0 y] s have "json_safe y" by simp
      with c x show ?thesis
        by (auto simp: json_safe_Cons scalar_value_def high_surrogate_def low_surrogate_def)
    next
      case True
      with scan obtain e r' where r': "r0 = e # r'"
        by (cases r0) auto
      from r0 r' have ur': "unicode_text r'" by (simp add: unicode_text_def)
      show ?thesis
      proof (cases "e = 117")
        case False
        with scan True r' obtain ch y where ch: "backslash e = Some ch"
          and y: "scanstring r' = Inr (y, r)" and x: "x = ch # y"
          by (auto split: option.splits dest!: cons_char_Inr)
        from ch have "ch \<in> {34, 92, 47, 8, 12, 10, 13, 9}"
          by (auto simp: backslash_def split: if_splits)
        moreover from IH [OF _ ur' y] s r' have "json_safe y" by simp
        ultimately show ?thesis
          using x by (auto simp: json_safe_Cons high_surrogate_def low_surrogate_def)
      next
        case u: True
        with scan True r' obtain uni where uni: "decode_uXXXX r' = Some uni"
          by (auto split: option.splits)
        note lt = decode_less [OF uni]
        have d4: "unicode_text (drop 4 r')" and d10: "unicode_text (drop 10 r')"
          using ur' by (rule unicode_text_drop)+
        have l4: "length (drop 4 r') < length s" and l10: "length (drop 10 r') < length s"
          by (simp_all add: s r')
        have head: "take 2 s = [92, 117]" "drop 2 s = r'"
          by (simp_all add: s r' True u)
        show ?thesis
        proof (cases "high_surrogate uni \<and> take 2 (drop 4 r') = [92, 117]")
          case pairing: True
          with scan True r' u uni obtain uni2 where uni2: "decode_uXXXX (drop 6 r') = Some uni2"
            by (auto split: option.splits)
          show ?thesis
          proof (cases "low_surrogate uni2")
            case True
            with scan \<open>c = 92\<close> r' u uni pairing uni2 obtain y
              where y: "scanstring (drop 10 r') = Inr (y, r)"
                and x: "x = (65536 + ((uni - 55296) * 1024 + (uni2 - 56320))) # y"
              by (auto dest!: cons_char_Inr)
            from pairing have "uni - 55296 \<le> 1023"
              by (auto simp: high_surrogate_def)
            then have "(uni - 55296) * 1024 \<le> 1023 * 1024"
              by (rule mult_le_mono1)
            with True have "65536 + ((uni - 55296) * 1024 + (uni2 - 56320)) < 1114112"
              by (simp add: low_surrogate_def)
            moreover from IH [OF l10 d10 y] have "json_safe y" by simp
            ultimately show ?thesis
              using x by (simp add: json_safe_Cons high_surrogate_def low_surrogate_def)
          next
            case False
            with scan \<open>c = 92\<close> r' u uni pairing uni2 obtain y
              where y: "scanstring (drop 4 r') = Inr (y, r)" and x: "x = uni # y"
              by (auto dest!: cons_char_Inr)
            from IH [OF l4 d4 y] have safe: "json_safe y"
              and hd: "case y of [] \<Rightarrow> True
                 | h # _ \<Rightarrow> low_surrogate h \<longrightarrow> decode_uXXXX (drop 2 (drop 4 r')) = Some h"
              by (auto split: list.splits)
            from hd uni2 False have "case y of [] \<Rightarrow> True | h # _ \<Rightarrow> \<not> low_surrogate h"
              by (auto split: list.splits)
            with safe lt x pairing head uni show ?thesis
              by (auto simp: json_safe_Cons high_surrogate_def low_surrogate_def split: list.splits)
          qed
        next
          case alone: False
          with scan \<open>c = 92\<close> r' u uni obtain y
            where y: "scanstring (drop 4 r') = Inr (y, r)" and x: "x = uni # y"
            by (auto dest!: cons_char_Inr)
          from IH [OF l4 d4 y] have safe: "json_safe y"
            and hd: "case y of [] \<Rightarrow> True
               | h # _ \<Rightarrow> low_surrogate h \<longrightarrow> take 2 (drop 4 r') = [92, 117]"
            by (auto split: list.splits)
          from hd alone have "high_surrogate uni \<longrightarrow> (case y of [] \<Rightarrow> True | h # _ \<Rightarrow> \<not> low_surrogate h)"
            by (auto split: list.splits)
          with safe lt x head uni show ?thesis
            by (auto simp: json_safe_Cons split: list.splits)
        qed
      qed
    qed
  qed
qed

lemma scanstring_safe:
  "unicode_text s \<Longrightarrow> scanstring s = Inr (x, r) \<Longrightarrow> json_safe x"
  using scanstring_safe_head by blast

lemma skip_ws_not_ws: "\<not> is_ws c \<Longrightarrow> skip_ws (c # r) = c # r"
  by (simp add: skip_ws_def)

lemma skip_ws_newline_indent: "\<not> is_ws c \<Longrightarrow> skip_ws (newline_indent l @ c # r) = c # r"
  by (simp add: skip_ws_def newline_indent_def is_ws_def dropWhile_append3)

lemma skip_ws_space: "skip_ws (32 # r) = skip_ws r"
  by (simp add: skip_ws_def is_ws_def)

lemma not_ws: "\<not> is_ws 34" "\<not> is_ws 44" "\<not> is_ws 58" "\<not> is_ws 93" "\<not> is_ws 123" "\<not> is_ws 125"
  by (simp_all add: is_ws_def)

lemma key_text:
  "json_safe (str ''Published'')" "json_safe (str ''Title'')"
  "json_safe (str ''Description'')" "json_safe (str ''Link'')"
  by (simp_all add: str_def high_surrogate_def)

lemma key_distinct:
  "str ''Published'' \<noteq> str ''Title''" "str ''Published'' \<noteq> str ''Description''"
  "str ''Published'' \<noteq> str ''Link''" "str ''Title'' \<noteq> str ''Description''"
  "str ''Title'' \<noteq> str ''Link''" "str ''Description'' \<noteq> str ''Link''"
  by (simp_all add: str_def)

lemma scanstring_at_escaped:
  "json_safe s \<Longrightarrow> scanstring_at py depth (concat (map escape_char s) @ 34 # rest) = Inr (s, rest)"
  by (simp add: scan_escaped)

lemma scan_article:
  assumes "valid_article a"
  shows "scan_once py (Suc (Suc (Suc (Suc (Suc (Suc n)))))) (Suc depth)
           (iterencode (Suc l) (article_json a) @ rest)
         = Inr (article_json a, rest)"
  using assms
  by (simp add: article_json_def valid_article_def encode_basestring_ascii_def
        scanstring_at_escaped key_text key_distinct skip_ws_not_ws skip_ws_newline_indent
        skip_ws_space not_ws
      del: scanstring_at_Inr)


lemma scan_article_fuel:
  assumes "valid_article a" and "6 \<le> n" and "0 < depth"
  shows "scan_once py n depth (iterencode (Suc l) (article_json a) @ rest)
         = Inr (article_json a, rest)"
proof -
  from assms(2) obtain k where "n = 6 + k"
    using le_Suc_ex by blast
  then have n: "n = Suc (Suc (Suc (Suc (Suc (Suc k)))))" by simp
  from assms(3) obtain d where d: "depth = Suc d" by (cases depth) auto
  from scan_article [OF assms(1)] show ?thesis unfolding n d .
qed

lemma join_Cons_Cons: "join sep ((c # x) # xs) = c # join sep (x # xs)"
  by (cases xs) simp_all

lemma join_Cons_append: "xs \<noteq> [] \<Longrightarrow> join sep (x # xs) = x @ sep @ join sep xs"
  by (cases xs) simp_all

lemma encode_article_starts: "\<exists>x. encode_article l a = 123 # x"
  by (simp add: encode_article_def article_json_def)

lemma skip_ws_indent_articles:
  assumes "as \<noteq> []"
  shows "skip_ws (newline_indent k @ join sep (map (encode_article l) as) @ r)
         = join sep (map (encode_article l) as) @ r"
proof -
  from assms obtain b bs where as: "as = b # bs" by (cases as) auto
  obtain x where x: "encode_article l b = 123 # x"
    using encode_article_starts by blast
  show ?thesis
    by (simp add: as x join_Cons_Cons skip_ws_newline_indent not_ws)
qed

lemma parse_array_articles:
  assumes "list_all valid_article as" and "as \<noteq> []" and "length as + 6 \<le> n" and "0 < depth"
  shows "parse_array py n depth
           (join (44 # newline_indent (Suc 0)) (map (encode_article (Suc 0)) as)
              @ newline_indent 0 @ 93 # rest) acc
         = Inr (JArr (acc @ map article_json as), rest)"
  using assms
proof (induction as arbitrary: n acc)
  case Nil
  then show ?case by simp
next
  case (Cons a as)
  from Cons.prems(3) obtain k where n: "n = Suc k" and k: "length as + 6 \<le> k"
    by (cases n) auto
  from Cons.prems(1) have va: "valid_article a" and vas: "list_all valid_article as"
    by simp_all
  from k have k6: "6 \<le> k" by simp
  have first: "scan_once py k depth (encode_article (Suc 0) a @ r) = Inr (article_json a, r)" for r
    unfolding encode_article_def by (rule scan_article_fuel [OF va k6 Cons.prems(4)])
  show ?case
  proof (cases "as = []")
    case True
    then show ?thesis
      by (simp add: n first skip_ws_newline_indent not_ws)
  next
    case False
    have step: "parse_array py k depth
                  (join (44 # newline_indent (Suc 0)) (map (encode_article (Suc 0)) as)
                     @ newline_indent 0 @ 93 # rest) (acc @ [article_json a])
         = Inr (JArr ((acc @ [article_json a]) @ map article_json as), rest)"
      by (rule Cons.IH [OF vas False k Cons.prems(4)])
    show ?thesis
      using False step
      by (simp add: n first join_Cons_append skip_ws_not_ws not_ws skip_ws_indent_articles)
  qed
qed

lemma length_join_ge:
  "(\<And>x. x \<in> set xs \<Longrightarrow> x \<noteq> []) \<Longrightarrow> length xs \<le> length (join sep xs)"
proof (induction sep xs rule: join.induct)
  case (1 sep)
  then show ?case by simp
next
  case (2 sep x)
  then have "x \<noteq> []" by simp
  then show ?case by (cases x) simp_all
next
  case (3 sep x y ys)
  then have "length (y # ys) \<le> length (join sep (y # ys))" by simp
  moreover from 3 have "x \<noteq> []" by simp
  then have "1 \<le> length x" by (cases x) simp_all
  ultimately show ?case by simp
qed

lemma loads_dumps_empty:
  assumes "0 < recursion_limit py"
  shows "json_loads py (json_dumps (JArr [])) = Inr (JArr [])"
proof -
  have e: "scan_once py (Suc n) (recursion_limit py) [91, 93] = Inr (JArr [], [])" for n
    using assms by (simp add: skip_ws_def is_ws_def)
  have d: "json_dumps (JArr []) = [91, 93]"
    by (simp add: json_dumps_def str_def)
  have f: "2 * length [91, 93 :: nat] + 2 = Suc 5"
    by simp
  have w: "skip_ws [91, 93] = [91, 93]"
    by (simp add: skip_ws_def is_ws_def)
  show ?thesis
    unfolding json_loads_def d f w e by (simp add: skip_ws_def)
qed

lemma dumps_collection:
  "as \<noteq> [] \<Longrightarrow> json_dumps (collection_json as)
     = 91 # newline_indent (Suc 0) @ join (44 # newline_indent (Suc 0)) (map (encode_article (Suc 0)) as)
          @ newline_indent 0 @ [93]"
  by (simp add: json_dumps_def collection_json_def encode_article_def [abs_def] comp_def)

lemma scan_once_array:
  "skip_ws r = d # r' \<Longrightarrow> d \<noteq> 93 \<Longrightarrow>
   scan_once py (Suc n) (Suc depth) (91 # r) = parse_array py n depth (d # r') []"
  by simp

text \<open>
  A collection nests an object in an array, so the scanner needs two levels of recursion to
  read it.
\<close>

lemma loads_dumps_collection:
  assumes "list_all valid_article as" and "2 \<le> recursion_limit py"
  shows "json_loads py (json_dumps (collection_json as)) = Inr (collection_json as)"
proof (cases "as = []")
  case True
  with assms(2) show ?thesis
    by (simp add: collection_json_def loads_dumps_empty)
next
  case False
  from assms(2) obtain lim where lim: "recursion_limit py = Suc lim" and pos: "0 < lim"
    by (cases "recursion_limit py") auto
  define J where "J = join (44 # newline_indent (Suc 0)) (map (encode_article (Suc 0)) as)"
  define doc where "doc = 91 # newline_indent (Suc 0) @ J @ newline_indent 0 @ [93]"
  have dumped: "json_dumps (collection_json as) = doc"
    using False by (simp add: dumps_collection doc_def J_def)
  have "x \<noteq> []" if "x \<in> set (map (encode_article (Suc 0)) as)" for x
  proof -
    from that obtain a where "x = encode_article (Suc 0) a" by auto
    with encode_article_starts [of "Suc 0" a] show ?thesis by auto
  qed
  then have "length (map (encode_article (Suc 0)) as) \<le> length J"
    unfolding J_def by (rule length_join_ge)
  then have fuel: "length as + 6 \<le> 2 * length doc + 1"
    by (simp add: doc_def newline_indent_def)
  from False obtain b bs where as: "as = b # bs" by (cases as) auto
  obtain x where x: "encode_article (Suc 0) b = 123 # x"
    using encode_article_starts by blast
  obtain y where Jy: "J = 123 # y"
    by (simp add: J_def as x join_Cons_Cons)
  have sk: "skip_ws (newline_indent (Suc 0) @ J @ newline_indent 0 @ [93]) = J @ newline_indent 0 @ [93]"
    unfolding J_def by (rule skip_ws_indent_articles [OF False])
  have arr: "parse_array py (2 * length doc + 1) lim (J @ newline_indent 0 @ [93]) []
             = Inr (JArr ([] @ map article_json as), [])"
    unfolding J_def by (rule parse_array_articles [OF assms(1) False fuel pos])
  define N where "N = 2 * length doc + 1"
  have two: "2 * length doc + 2 = Suc N" by (simp add: N_def)
  have r1: "skip_ws (newline_indent (Suc 0) @ J @ newline_indent 0 @ [93])
            = 123 # (y @ newline_indent 0 @ [93])"
    using sk Jy by simp
  have "scan_once py (Suc N) (Suc lim) doc
        = parse_array py N lim (123 # (y @ newline_indent 0 @ [93])) []"
    unfolding doc_def by (rule scan_once_array [OF r1]) simp
  also have "123 # (y @ newline_indent 0 @ [93]) = J @ newline_indent 0 @ [93]"
    using Jy by simp
  finally have s1: "scan_once py (Suc N) (Suc lim) doc = Inr (collection_json as, [])"
    using arr by (simp add: N_def collection_json_def)
  have s2: "skip_ws doc = doc"
    by (simp add: doc_def skip_ws_def is_ws_def)
  show ?thesis
    unfolding json_loads_def dumped two s2 lim s1 by (simp add: skip_ws_def)
qed


section \<open>Refreshing\<close>

lemma map_exc_Inr_iff: "map_exc f xs = Inr ys \<longleftrightarrow> list_all2 (\<lambda>x y. f x = Inr y) xs ys"
proof (induction xs arbitrary: ys)
  case Nil
  then show ?case by auto
next
  case (Cons x xs)
  show ?case
  proof (cases "f x")
    case (Inl e)
    then show ?thesis by (auto simp: list_all2_Cons1)
  next
    case fx: (Inr y)
    show ?thesis
    proof (cases "map_exc f xs")
      case (Inl e)
      with fx Cons.IH show ?thesis by (auto simp: list_all2_Cons1)
    next
      case (Inr zs)
      with fx Cons.IH show ?thesis by (auto simp: list_all2_Cons1)
    qed
  qed
qed

lemma fetch_loop_map_exc:
  "fetch_loop net m ss acc =
     exc_bind (map_exc (fetch_sensor net m) ss) (\<lambda>xss. Inr (acc @ concat xss))"
proof (induction ss arbitrary: acc)
  case Nil
  then show ?case by simp
next
  case (Cons s ss)
  show ?case
  proof (cases "fetch_sensor net m s")
    case (Inl e)
    then show ?thesis by simp
  next
    case (Inr new)
    then show ?thesis
      by (cases "map_exc (fetch_sensor net m) ss") (simp_all add: Cons.IH)
  qed
qed

lemma fetch_loop_Inr_all:
  assumes "fetch_loop net m ss acc = Inr arts"
  shows "\<forall>s\<in>set ss. \<exists>xs. fetch_sensor net m s = Inr xs"
proof -
  from assms obtain xss where "map_exc (fetch_sensor net m) ss = Inr xss"
    by (cases "map_exc (fetch_sensor net m) ss") (simp_all add: fetch_loop_map_exc)
  then have "list_all2 (\<lambda>x y. fetch_sensor net m x = Inr y) ss xss"
    by (simp add: map_exc_Inr_iff)
  then show ?thesis
    by (auto simp: list_all2_conv_all_nth in_set_conv_nth)
qed

lemma fetch_loop_Inl:
  assumes "s \<in> set ss" and "fetch_sensor net m s = Inl e"
  shows "\<exists>e'. fetch_loop net m ss acc = Inl e'"
proof (cases "fetch_loop net m ss acc")
  case (Inl e')
  then show ?thesis by blast
next
  case (Inr arts)
  from fetch_loop_Inr_all [OF this] assms show ?thesis by auto
qed

lemma fetch_sensor_http_error:
  assumes "net (ha_url @ str ''/api/states/'' @ sensor)
               [(str ''Authorization'', str ''Bearer '' @ ha_token m)] = Inr r"
    and "400 \<le> status_code r" and "status_code r < 600"
  shows "fetch_sensor net m sensor = Inl (HTTPError (status_code r))"
  using assms by (simp add: fetch_sensor_def raise_for_status_def)

lemmas scenario_defs = two_sensors_def no_files_def feed_payload_def item_a_def item_b_def
  sensor_url_def ha_url_def article_json_def article_a_def article_b_def

lemma fetch_two_feeds:
  "fetch_sensor two_feeds two_sensors (str ''sensor.a'') = Inr [article_json article_a]"
  "fetch_sensor two_feeds two_sensors (str ''sensor.b'') = Inr [article_json article_b]"
  by (simp_all add: fetch_sensor_def two_feeds_def scenario_defs raise_for_status_def
        response_json_def make_article_def str_def)

lemma fetch_one_feed_down:
  "fetch_sensor one_feed_down two_sensors (str ''sensor.a'') = Inr [article_json article_a]"
  "fetch_sensor one_feed_down two_sensors (str ''sensor.b'') = Inl (HTTPError 500)"
  by (simp_all add: fetch_sensor_def one_feed_down_def scenario_defs raise_for_status_def
        response_json_def make_article_def str_def)

lemma two_sensors_fields:
  "sensors two_sensors = [str ''sensor.a'', str ''sensor.b'']"
  "output_file two_sensors = str ''./news.json''"
  "ha_token two_sensors = str ''secret''"
  by (simp_all add: two_sensors_def)

text \<open>
  Claim C1.  \<open>update_news_data\<close> returns \<open>True\<close> only if the fetch of every configured sensor
  succeeds and the write of the collection succeeds; and whenever the \<open>try\<close> block raises, in
  a fetch or in the write, the exception is caught and the result is \<open>False\<close>.  The result is
  a Boolean in every case: nothing reaches the caller.
\<close>

theorem refresh_true_only_if_fetch_and_save:
  "(fst (update_news_data net fault m fs) \<longrightarrow>
      (\<forall>s\<in>set (sensors m). \<exists>xs. fetch_sensor net m s = Inr xs) \<and>
      (\<exists>arts. fetch_loop net m (sensors m) [] = Inr arts \<and>
              fst (open_w_dump fault fs (output_file m) (JArr arts)) = Inr ()))
   \<and> (\<forall>e. fst (update_news_try net fault m fs) = Inl e \<longrightarrow>
          \<not> fst (update_news_data net fault m fs))"
proof (intro conjI impI allI)
  assume ok: "fst (update_news_data net fault m fs)"
  then obtain arts where loop: "fetch_loop net m (sensors m) [] = Inr arts"
    by (cases "fetch_loop net m (sensors m) []")
       (simp_all add: update_news_data_def update_news_try_def)
  from fetch_loop_Inr_all [OF loop]
  show "\<forall>s\<in>set (sensors m). \<exists>xs. fetch_sensor net m s = Inr xs" .
  from ok loop have "fst (open_w_dump fault fs (output_file m) (JArr arts)) = Inr ()"
    by (cases "open_w_dump fault fs (output_file m) (JArr arts)")
       (auto simp: update_news_data_def update_news_try_def split: sum.splits)
  with loop
  show "\<exists>arts. fetch_loop net m (sensors m) [] = Inr arts \<and>
          fst (open_w_dump fault fs (output_file m) (JArr arts)) = Inr ()"
    by blast
next
  fix e
  assume "fst (update_news_try net fault m fs) = Inl e"
  then show "\<not> fst (update_news_data net fault m fs)"
    by (cases "update_news_try net fault m fs") (simp add: update_news_data_def)
qed

theorem refresh_true_only_if_fetch_and_save_witness:
  "fst (update_news_data two_feeds NoFault two_sensors no_files)
   \<and> (\<exists>xs. fetch_sensor two_feeds two_sensors (str ''sensor.a'') = Inr xs)
   \<and> (\<exists>xs. fetch_sensor two_feeds two_sensors (str ''sensor.b'') = Inr xs)
   \<and> (\<exists>arts. fetch_loop two_feeds two_sensors (sensors two_sensors) [] = Inr arts \<and>
              fst (open_w_dump NoFault no_files (output_file two_sensors) (JArr arts)) = Inr ())
   \<and> fst (update_news_try one_feed_down NoFault two_sensors no_files) = Inl (HTTPError 500)
   \<and> \<not> fst (update_news_data one_feed_down NoFault two_sensors no_files)"
proof -
  note ss = two_sensors_fields(1)
  have up: "fst (update_news_data two_feeds NoFault two_sensors no_files)"
    by (simp add: update_news_data_def update_news_try_def ss fetch_two_feeds open_w_dump_def
          no_files_def)
  have down: "fst (update_news_try one_feed_down NoFault two_sensors no_files) = Inl (HTTPError 500)"
    by (simp add: update_news_try_def ss fetch_one_feed_down)
  from refresh_true_only_if_fetch_and_save [of two_feeds NoFault two_sensors no_files] up
  have "(\<forall>s\<in>set (sensors two_sensors). \<exists>xs. fetch_sensor two_feeds two_sensors s = Inr xs)"
    and "\<exists>arts. fetch_loop two_feeds two_sensors (sensors two_sensors) [] = Inr arts \<and>
              fst (open_w_dump NoFault no_files (output_file two_sensors) (JArr arts)) = Inr ()"
    by blast+
  moreover
  from refresh_true_only_if_fetch_and_save [of one_feed_down NoFault two_sensors no_files] down
  have "\<not> fst (update_news_data one_feed_down NoFault two_sensors no_files)"
    by blast
  ultimately show ?thesis
    using up down by (simp add: ss)
qed

text \<open>
  Claim C2.  When the fetch of some configured sensor fails, \<open>update_news_data\<close> returns
  \<open>False\<close> and the file system is the one before the call: the file is not created, emptied
  or rewritten.
\<close>

theorem refresh_fetch_failure_leaves_store:
  assumes "sensor \<in> set (sensors m)" and "fetch_sensor net m sensor = Inl e"
  shows "update_news_data net fault m fs = (False, fs)"
proof -
  from fetch_loop_Inl [OF assms] obtain e' where "fetch_loop net m (sensors m) [] = Inl e'"
    by blast
  then show ?thesis
    by (simp add: update_news_data_def update_news_try_def)
qed

theorem refresh_fetch_failure_leaves_store_witness:
  "str ''sensor.b'' \<in> set (sensors two_sensors)
   \<and> fetch_sensor one_feed_down two_sensors (str ''sensor.b'') = Inl (HTTPError 500)
   \<and> update_news_data one_feed_down NoFault two_sensors no_files = (False, no_files)
   \<and> no_files (output_file two_sensors) = Absent"
proof -
  have mem: "str ''sensor.b'' \<in> set (sensors two_sensors)"
    by (simp add: two_sensors_def)
  note down = fetch_one_feed_down(2)
  from refresh_fetch_failure_leaves_store [OF mem down, of NoFault no_files] mem down
  show ?thesis by (simp add: no_files_def)
qed


lemma field_getitem: "field v k = Some x \<Longrightarrow> py_getitem v k = Inr x"
  by (cases v) (simp_all add: field_def)

lemma payload_items_steps:
  assumes "payload_items data = Some its"
  obtains a r c where
    "py_getitem data (str ''attributes'') = Inr a" "py_getitem a (str ''rss'') = Inr r"
    "py_getitem r (str ''channel'') = Inr c" "py_getitem c (str ''item'') = Inr (JArr its)"
proof -
  from assms obtain a r c where
    "field data (str ''attributes'') = Some a" "field a (str ''rss'') = Some r"
    "field r (str ''channel'') = Some c" "field c (str ''item'') = Some (JArr its)"
    by (auto simp: payload_items_def bind_eq_Some_conv split: option.splits json.splits)
  then show ?thesis
    using that by (simp add: field_getitem)
qed

lemma make_article_spec: "make_article item = Inr art \<longleftrightarrow> spec_article item = Some art"
proof (cases item)
  case (JObj kvs)
  then show ?thesis
    by (auto simp: make_article_def spec_article_def field_def split: option.splits)
qed (simp_all add: make_article_def spec_article_def field_def)

lemma fetch_sensor_spec:
  assumes "fetch_sensor net m sensor = Inr arts" and "source_items net m sensor = Some its"
  shows "list_all2 (\<lambda>item art. spec_article item = Some art) its arts"
proof -
  from assms(2) obtain r data where
    r: "net (ha_url @ str ''/api/states/'' @ sensor)
            [(str ''Authorization'', str ''Bearer '' @ ha_token m)] = Inr r"
    and d: "json_result r = Some data" and p: "payload_items data = Some its"
    by (auto simp: source_items_def split: sum.splits option.splits)
  from assms(1) r have ok: "raise_for_status r = Inr ()"
    by (cases "raise_for_status r") (simp_all add: fetch_sensor_def)
  have chain: "exc_bind (py_getitem data (str ''attributes'')) (\<lambda>attributes.
         exc_bind (py_getitem attributes (str ''rss'')) (\<lambda>rss.
         exc_bind (py_getitem rss (str ''channel'')) (\<lambda>channel.
         exc_bind (py_getitem channel (str ''item'')) (\<lambda>items.
         exc_bind (py_iter items) (\<lambda>its. map_exc make_article its))))) = Inr arts"
    using assms(1) r ok d by (simp add: fetch_sensor_def response_json_def)
  from payload_items_steps [OF p] obtain a b c where
    "py_getitem data (str ''attributes'') = Inr a" "py_getitem a (str ''rss'') = Inr b"
    "py_getitem b (str ''channel'') = Inr c" "py_getitem c (str ''item'') = Inr (JArr its)"
    by blast
  with chain have "map_exc make_article its = Inr arts" by simp
  then show ?thesis
    by (simp add: map_exc_Inr_iff make_article_spec)
qed

text \<open>
  Claim C5.  After a successful refresh over sources whose payloads each contain an
  \<open>attributes.rss.channel.item\<close> sequence, the file holds the concatenation of the
  per-source lists, in the order of the sources and of the items, and every item has become
  the Article of the specification: \<open>Published\<close>, \<open>Title\<close> and \<open>Link\<close> from \<open>pubDate\<close>,
  \<open>title\<close> and \<open>link\<close>, \<open>Description\<close> from \<open>description\<close> or the sentinel
  \<open>No description\<close>.
\<close>

theorem refresh_persists_mapped_items:
  assumes "update_news_data net fault m fs = (True, fs')"
    and "map (source_items net m) (sensors m) = map Some itemss"
  shows "\<exists>artss. list_all2 (list_all2 (\<lambda>item art. spec_article item = Some art)) itemss artss
           \<and> fs' (output_file m) = File (json_dumps (JArr (concat artss)))"
proof -
  from assms(1) obtain arts where loop: "fetch_loop net m (sensors m) [] = Inr arts"
    and w: "open_w_dump fault fs (output_file m) (JArr arts) = (Inr (), fs')"
    by (cases "fetch_loop net m (sensors m) []";
        cases "open_w_dump fault fs (output_file m) (JArr arts)")
       (auto simp: update_news_data_def update_news_try_def split: sum.splits prod.splits)
  from loop obtain artss where m: "map_exc (fetch_sensor net m) (sensors m) = Inr artss"
    and arts: "arts = concat artss"
    by (cases "map_exc (fetch_sensor net m) (sensors m)") (simp_all add: fetch_loop_map_exc)
  from m have each: "list_all2 (\<lambda>s xs. fetch_sensor net m s = Inr xs) (sensors m) artss"
    by (simp add: map_exc_Inr_iff)
  from assms(2) have len: "length itemss = length (sensors m)"
    by (metis length_map)
  have "list_all2 (list_all2 (\<lambda>item art. spec_article item = Some art)) itemss artss"
  proof (rule list_all2_all_nthI)
    show "length itemss = length artss"
      using len each by (simp add: list_all2_lengthD)
  next
    fix i assume i: "i < length itemss"
    with len have "source_items net m (sensors m ! i) = Some (itemss ! i)"
      using assms(2) by (metis nth_map)
    moreover from each i len have "fetch_sensor net m (sensors m ! i) = Inr (artss ! i)"
      by (simp add: list_all2_conv_all_nth)
    ultimately show "list_all2 (\<lambda>item art. spec_article item = Some art) (itemss ! i) (artss ! i)"
      by (rule fetch_sensor_spec [rotated])
  qed
  moreover from w have "fs' (output_file m) = File (json_dumps (JArr arts))"
    by (auto simp: open_w_dump_def split: if_splits write_fault.splits)
  ultimately show ?thesis using arts by blast
qed

lemma spec_items:
  "spec_article item_a = Some (article_json article_a)"
  "spec_article item_b = Some (article_json article_b)"
  by (simp_all add: spec_article_def field_def item_a_def item_b_def article_json_def
        article_a_def article_b_def str_def)

lemma refresh_two_feeds:
  "update_news_data two_feeds NoFault two_sensors no_files = (True, stored [article_a, article_b])"
  by (simp add: update_news_data_def update_news_try_def two_sensors_fields fetch_two_feeds
        open_w_dump_def no_files_def stored_def collection_json_def)


section \<open>Loading\<close>

lemma load_cases:
  "get_file_contents py fs m =
     (case fs (output_file m) of
        Absent \<Rightarrow> Inr (JArr [])
      | Denied \<Rightarrow> Inl OSError
      | Undecodable \<Rightarrow> Inl UnicodeDecodeError
      | File txt \<Rightarrow>
          (case json_loads py txt of
             Inr v \<Rightarrow> Inr v
           | Inl e \<Rightarrow> if e = JSONDecodeError then Inr (JArr []) else Inl e))"
proof (cases "fs (output_file m)")
  case (File doc)
  show ?thesis
  proof (cases "json_loads py doc")
    case (Inl e)
    from json_loads_raises [OF Inl] have "e \<noteq> FileNotFoundError"
      by (auto simp: scanner_error_def)
    with File Inl show ?thesis
      by (simp add: get_file_contents_def open_r_load_def)
  next
    case (Inr v)
    with File show ?thesis
      by (simp add: get_file_contents_def open_r_load_def)
  qed
qed (simp_all add: get_file_contents_def open_r_load_def)

text \<open>
  A text that opens more arrays than the interpreter has levels of recursion is not read to
  its end: the scanner raises \<open>RecursionError\<close> at the first array that is one too many.
\<close>

lemma scan_deep_array:
  "2 * depth + 1 \<le> n \<Longrightarrow>
   scan_once py n depth (replicate (Suc depth) 91 @ rest) = Inl RecursionError"
proof (induction depth arbitrary: n)
  case 0
  then obtain k where "n = Suc k" by (cases n) auto
  then show ?case by simp
next
  case (Suc depth)
  from Suc.prems obtain k where n: "n = Suc (Suc k)" and k: "2 * depth + 1 \<le> k"
    by (cases n; cases "n - 1") auto
  have sk: "skip_ws (replicate (Suc depth) 91 @ rest) = 91 # (replicate depth 91 @ rest)"
    by (simp add: skip_ws_def is_ws_def)
  have "scan_once py (Suc (Suc k)) (Suc depth) (91 # (replicate (Suc depth) 91 @ rest))
        = parse_array py (Suc k) depth (91 # (replicate depth 91 @ rest)) []"
    using sk by simp
  also have "\<dots> = Inl RecursionError"
    using Suc.IH [OF k] by simp
  finally show ?case by (simp add: n)
qed

lemma loads_deep_array:
  assumes "recursion_limit py < k"
  shows "json_loads py (replicate k 91 @ rest) = Inl RecursionError"
proof -
  define d where "d = recursion_limit py"
  from assms obtain j where k: "k = Suc d + j"
    unfolding d_def using less_iff_Suc_add by auto
  have doc: "replicate k 91 @ rest = replicate (Suc d) 91 @ (replicate j 91 @ rest)"
    by (simp add: k replicate_add)
  have sk: "skip_ws (replicate k 91 @ rest) = replicate k 91 @ rest"
    by (simp add: k skip_ws_def is_ws_def)
  have "2 * d + 1 \<le> 2 * length (replicate k 91 @ rest) + 2"
    by (simp add: k)
  from scan_deep_array [OF this, of py "replicate j 91 @ rest"]
  have "scan_once py (2 * length (replicate k 91 @ rest) + 2) d (replicate k 91 @ rest)
        = Inl RecursionError"
    by (simp only: doc)
  then show ?thesis
    unfolding json_loads_def sk d_def by simp
qed

text \<open>An integer literal of more digits than \<open>int\<close> converts raises \<open>ValueError\<close>.\<close>

lemma loads_long_int:
  assumes "int_max_str_digits py \<noteq> 0" and "int_max_str_digits py < k"
  shows "json_loads py (replicate k 49) = Inl ValueError"
proof -
  from assms(2) obtain j where k: "k = Suc j" by (cases k) auto
  have tw: "takeWhile is_digit (replicate j 49) = replicate j 49"
    and dw: "dropWhile is_digit (replicate j 49) = []"
    by (simp_all add: is_digit_def)
  have "match_number py (49 # replicate j 49) = Some (Inl ValueError)"
    using assms
    by (simp add: match_number_def Let_def is_digit_def [of 49] tw dw fraction_part_def
          exponent_part_def starts_fraction_def starts_exponent_def k)
  then have "scan_once py (Suc n) depth (49 # replicate j 49) = Inl ValueError" for n depth
    by (simp add: str_def)
  then have "scan_once py (Suc (2 * length (replicate k (49::nat)) + 1)) (recursion_limit py)
               (49 # replicate j 49) = Inl ValueError"
    by blast
  moreover have "skip_ws (replicate k 49) = 49 # replicate j 49"
    by (simp add: k skip_ws_def is_ws_def)
  moreover have "2 * length (replicate k (49::nat)) + 2 = Suc (2 * length (replicate k (49::nat)) + 1)"
    by simp
  ultimately show ?thesis
    unfolding json_loads_def by (simp del: scan_once.simps length_replicate)
qed

lemma loads_oops: "json_loads cpython (str ''[{oops'') = Inl JSONDecodeError"
proof -
  have "parse_object cpython (Suc n) 988 (str ''oops'') [] = Inl JSONDecodeError" for n
    by (simp add: str_def raise_errmsg_def cpython_def)
  then have "scan_once cpython (Suc (Suc (Suc (Suc n)))) 990 (str ''[{oops'') = Inl JSONDecodeError"
    for n
    by (simp add: str_def skip_ws_def is_ws_def)
  then have "scan_once cpython (2 * length (str ''[{oops'') + 2) (recursion_limit cpython)
               (skip_ws (str ''[{oops'')) = Inl JSONDecodeError"
    by (simp add: str_def skip_ws_def is_ws_def cpython_def numeral_eq_Suc del: scan_once.simps)
  then show ?thesis
    by (simp add: json_loads_def)
qed

text \<open>
  Claim C3, as amended.  \<open>get_file_contents\<close> returns the empty list when the backing file
  is absent, and when it is a text on which \<open>json.load\<close> raises \<open>JSONDecodeError\<close>; it returns
  what \<open>json.load\<close> returns when that returns.  The two \<open>except\<close> clauses catch nothing else.
  A file whose bytes are no text raises \<open>UnicodeDecodeError\<close>; a path that cannot be opened
  raises \<open>OSError\<close>; and of the texts that are not valid JSON, those on which \<open>json.load\<close>
  raises \<open>RecursionError\<close> or \<open>ValueError\<close> raise that exception: \<open>RecursionError\<close> every
  text that opens more arrays than the interpreter has levels of recursion, \<open>ValueError\<close>
  an integer literal of more digits than \<open>int\<close> converts.  \<open>json.load\<close> raises no other
  exception.
\<close>

theorem load_empty_only_on_absent_or_decode_error:
  "(fs (output_file m) = Absent \<longrightarrow> get_file_contents py fs m = Inr (JArr []))
   \<and> (fs (output_file m) = File txt \<and> json_loads py txt = Inl JSONDecodeError \<longrightarrow>
        get_file_contents py fs m = Inr (JArr []))
   \<and> (fs (output_file m) = File txt \<and> json_loads py txt = Inr v \<longrightarrow>
        get_file_contents py fs m = Inr v)
   \<and> (fs (output_file m) = Undecodable \<longrightarrow> get_file_contents py fs m = Inl UnicodeDecodeError)
   \<and> (fs (output_file m) = Denied \<longrightarrow> get_file_contents py fs m = Inl OSError)
   \<and> (fs (output_file m) = File txt \<and> json_loads py txt = Inl RecursionError \<longrightarrow>
        get_file_contents py fs m = Inl RecursionError)
   \<and> (fs (output_file m) = File txt \<and> json_loads py txt = Inl ValueError \<longrightarrow>
        get_file_contents py fs m = Inl ValueError)
   \<and> (fs (output_file m) = File (replicate k 91 @ rest) \<and> recursion_limit py < k \<longrightarrow>
        get_file_contents py fs m = Inl RecursionError)
   \<and> (fs (output_file m) = File (replicate n 49)
       \<and> int_max_str_digits py \<noteq> 0 \<and> int_max_str_digits py < n \<longrightarrow>
        get_file_contents py fs m = Inl ValueError)
   \<and> (\<forall>e. json_loads py txt = Inl e \<longrightarrow>
          e = JSONDecodeError \<or> e = RecursionError \<or> e = ValueError)"
proof (intro conjI impI allI)
  fix e
  assume "json_loads py txt = Inl e"
  from json_loads_raises [OF this]
  show "e = JSONDecodeError \<or> e = RecursionError \<or> e = ValueError"
    by (simp add: scanner_error_def)
next
  assume "fs (output_file m) = File (replicate k 91 @ rest) \<and> recursion_limit py < k"
  then show "get_file_contents py fs m = Inl RecursionError"
    by (simp add: load_cases loads_deep_array)
next
  assume "fs (output_file m) = File (replicate n 49)
          \<and> int_max_str_digits py \<noteq> 0 \<and> int_max_str_digits py < n"
  then show "get_file_contents py fs m = Inl ValueError"
    by (simp add: load_cases loads_long_int)
qed (simp_all add: load_cases)

theorem load_empty_only_on_absent_or_decode_error_witness:
  "no_files (output_file two_sensors) = Absent
   \<and> get_file_contents cpython no_files two_sensors = Inr (JArr [])
   \<and> holding (str ''[{oops'') (output_file two_sensors) = File (str ''[{oops'')
   \<and> json_loads cpython (str ''[{oops'') = Inl JSONDecodeError
   \<and> get_file_contents cpython (holding (str ''[{oops'')) two_sensors = Inr (JArr [])
   \<and> garbled (output_file two_sensors) = Undecodable
   \<and> get_file_contents cpython garbled two_sensors = Inl UnicodeDecodeError
   \<and> holding (replicate 1001 91) (output_file two_sensors) = File (replicate 1001 91)
   \<and> recursion_limit cpython < 1001
   \<and> get_file_contents cpython (holding (replicate 1001 91)) two_sensors = Inl RecursionError
   \<and> holding (replicate 4301 49) (output_file two_sensors) = File (replicate 4301 49)
   \<and> int_max_str_digits cpython \<noteq> 0
   \<and> int_max_str_digits cpython < 4301
   \<and> get_file_contents cpython (holding (replicate 4301 49)) two_sensors = Inl ValueError"
proof -
  have a: "no_files (output_file two_sensors) = Absent"
    by (simp add: no_files_def)
  have h: "holding doc (output_file two_sensors) = File doc" for doc
    by (simp add: holding_def two_sensors_def)
  have g: "garbled (output_file two_sensors) = Undecodable"
    by (simp add: garbled_def two_sensors_def)
  have l: "recursion_limit cpython < 1001"
    by (simp add: cpython_def)
  from load_empty_only_on_absent_or_decode_error [of no_files two_sensors cpython]
  have 1: "get_file_contents cpython no_files two_sensors = Inr (JArr [])"
    using a by blast
  from load_empty_only_on_absent_or_decode_error
         [of "holding (str ''[{oops'')" two_sensors cpython "str ''[{oops''"]
  have 2: "get_file_contents cpython (holding (str ''[{oops'')) two_sensors = Inr (JArr [])"
    using h loads_oops by blast
  from load_empty_only_on_absent_or_decode_error [of garbled two_sensors cpython]
  have 3: "get_file_contents cpython garbled two_sensors = Inl UnicodeDecodeError"
    using g by blast
  from load_empty_only_on_absent_or_decode_error
         [of "holding (replicate 1001 91)" two_sensors cpython _ _ 1001 "[]"]
  have 4: "get_file_contents cpython (holding (replicate 1001 91)) two_sensors
           = Inl RecursionError"
    using h [of "replicate 1001 91"] l by simp
  have d: "int_max_str_digits cpython \<noteq> 0" "int_max_str_digits cpython < 4301"
    by (simp_all add: cpython_def)
  from load_empty_only_on_absent_or_decode_error
         [of "holding (replicate 4301 49)" two_sensors cpython _ _ _ _ 4301]
  have 5: "get_file_contents cpython (holding (replicate 4301 49)) two_sensors = Inl ValueError"
    using h [of "replicate 4301 49"] d by simp
  from a h g l d loads_oops 1 2 3 4 5 show ?thesis by blast
qed

text \<open>
  Claim C3, as stated, fails.  Each of these two files exists and holds no valid JSON, and
  \<open>get_file_contents\<close> raises on it: a file whose bytes are no text, and a file of 1001
  opening brackets.
\<close>

theorem load_invalid_json_counterexample:
  "garbled (output_file two_sensors) = Undecodable
   \<and> get_file_contents cpython garbled two_sensors = Inl UnicodeDecodeError
   \<and> holding (replicate 1001 91) (output_file two_sensors) = File (replicate 1001 91)
   \<and> get_file_contents cpython (holding (replicate 1001 91)) two_sensors = Inl RecursionError"
proof -
  have "json_loads cpython (replicate 1001 91 @ []) = Inl RecursionError"
    by (rule loads_deep_array) (simp add: cpython_def)
  then show ?thesis
    by (simp add: load_cases garbled_def holding_def two_sensors_def)
qed


lemma scenario_valid:
  "valid_article article_a" "valid_article article_b" "valid_article article_a2"
  by (simp_all add: valid_article_def high_surrogate_def
        article_a_def article_b_def article_a2_def str_def)

lemma load_after_dump:
  assumes "list_all valid_article as" and "2 \<le> recursion_limit py"
    and "fs (output_file m) = File (json_dumps (collection_json as))"
  shows "get_file_contents py fs m = Inr (collection_json as)"
  using assms by (simp add: get_file_contents_def open_r_load_def loads_dumps_collection)

lemma load_stored:
  "list_all valid_article as \<Longrightarrow>
   get_file_contents cpython (stored as) two_sensors = Inr (collection_json as)"
  by (rule load_after_dump) (simp_all add: stored_def two_sensors_def cpython_def)

text \<open>
  Claim C4.  For every Article Collection, a list of records of four strings, writing the
  collection to the backing file as \<open>update_news_data\<close> does, when the write succeeds, and
  then loading with \<open>get_file_contents\<close> gives the same collection: the same Articles with
  the same fields, in the same order.  The strings are those that hold no high surrogate
  directly followed by a low surrogate, which all Unicode text is.  The interpreter has the
  two levels of recursion left that the scanner takes for an object in an array.
\<close>

theorem save_then_load_roundtrip:
  assumes "list_all valid_article as"
    and "open_w_dump fault fs (output_file m) (collection_json as) = (Inr (), fs')"
    and "2 \<le> recursion_limit py"
  shows "get_file_contents py fs' m = Inr (collection_json as)"
proof -
  from assms(2) have "fs' (output_file m) = File (json_dumps (collection_json as))"
    by (auto simp: open_w_dump_def split: if_splits write_fault.splits)
  with assms(1,3) show ?thesis by (rule load_after_dump)
qed

theorem save_then_load_roundtrip_witness:
  "list_all valid_article [article_a, article_b]
   \<and> open_w_dump NoFault no_files (output_file two_sensors) (collection_json [article_a, article_b])
       = (Inr (), stored [article_a, article_b])
   \<and> 2 \<le> recursion_limit cpython
   \<and> get_file_contents cpython (stored [article_a, article_b]) two_sensors
       = Inr (collection_json [article_a, article_b])"
proof -
  have v: "list_all valid_article [article_a, article_b]"
    by (simp add: scenario_valid)
  have w: "open_w_dump NoFault no_files (output_file two_sensors) (collection_json [article_a, article_b])
       = (Inr (), stored [article_a, article_b])"
    by (simp add: open_w_dump_def no_files_def stored_def two_sensors_def)
  have l: "2 \<le> recursion_limit cpython"
    by (simp add: cpython_def)
  from save_then_load_roundtrip [OF v w l] v w l show ?thesis by simp
qed


text \<open>The second scenario of the specification, for claim C5.\<close>

theorem refresh_persists_mapped_items_witness:
  "update_news_data two_feeds NoFault two_sensors no_files = (True, stored [article_a, article_b])
   \<and> map (source_items two_feeds two_sensors) (sensors two_sensors) = map Some [[item_a], [item_b]]
   \<and> (\<exists>artss. list_all2 (list_all2 (\<lambda>item art. spec_article item = Some art))
                  [[item_a], [item_b]] artss
          \<and> stored [article_a, article_b] (output_file two_sensors)
              = File (json_dumps (JArr (concat artss))))
   \<and> spec_article item_a = Some (article_json article_a)
   \<and> spec_article item_b = Some (article_json article_b)
   \<and> description article_a = str ''No description''
   \<and> get_file_contents cpython (stored [article_a, article_b]) two_sensors
       = Inr (JArr [article_json article_a, article_json article_b])"
proof -
  have src: "map (source_items two_feeds two_sensors) (sensors two_sensors)
             = map Some [[item_a], [item_b]]"
    by (simp add: source_items_def two_sensors_fields two_feeds_def sensor_url_def ha_url_def
          payload_items_def feed_payload_def field_def str_def)
  have ld: "get_file_contents cpython (stored [article_a, article_b]) two_sensors
       = Inr (JArr [article_json article_a, article_json article_b])"
    using load_stored [of "[article_a, article_b]"]
    by (simp add: scenario_valid collection_json_def)
  from refresh_persists_mapped_items [OF refresh_two_feeds src] refresh_two_feeds src spec_items ld
  show ?thesis by (simp add: article_a_def)
qed

text \<open>
  The condition on the strings cannot be dropped: a Python string that holds a high
  surrogate directly followed by a low surrogate is written as two escapes and read back as
  one character.
\<close>

lemma dumps_pair: "json_dumps (JStr [55357, 56832]) = 34 # 92 # 117 # str ''d83d'' @ 92 # 117 # str ''de00'' @ [34]"
  by (simp add: json_dumps_def encode_basestring_ascii_def escape_char_def hex4_def hexdigit_def str_def)

lemma surrogate_pair_is_merged:
  "json_loads py (json_dumps (JStr [55357, 56832])) = Inr (JStr [128512])"
proof -
  have "scanstring (92 # 117 # str ''d83d'' @ 92 # 117 # str ''de00'' @ [34]) = Inr ([128512], [])"
    by (simp add: str_def decode_uXXXX_def hexval_def cons_char_def high_surrogate_def
          low_surrogate_def)
  then have "scanstring_at py depth (92 # 117 # str ''d83d'' @ 92 # 117 # str ''de00'' @ [34])
             = Inr ([128512], [])" for depth
    by (rule scanstring_at_returns)
  then have "scan_once py (Suc n) depth (34 # 92 # 117 # str ''d83d'' @ 92 # 117 # str ''de00'' @ [34])
             = Inr (JStr [128512], [])" for n depth
    by (simp del: scanstring_at_Inr)
  then have "scan_once py (Suc (2 * length (json_dumps (JStr [55357, 56832])) + 1))
               (recursion_limit py) (json_dumps (JStr [55357, 56832]))
       = Inr (JStr [128512], [])"
    unfolding dumps_pair by blast
  moreover have "skip_ws (json_dumps (JStr [55357, 56832])) = json_dumps (JStr [55357, 56832])"
    by (simp add: dumps_pair skip_ws_def is_ws_def)
  moreover have "2 * length (json_dumps (JStr [55357, 56832])) + 2 = Suc (2 * length (json_dumps (JStr [55357, 56832])) + 1)"
    by simp
  ultimately show ?thesis
    unfolding json_loads_def by (simp add: skip_ws_def del: scan_once.simps)
qed


section \<open>Queries\<close>

lemma article_title: "py_getitem (article_json a) (str ''Title'') = Inr (JStr (title a))"
  by (simp add: article_json_def str_def)

lemma find_article_collection:
  "find_article (map article_json as) t = Inr (map_option article_json (find (\<lambda>a. title a = t) as))"
  by (induction as) (simp_all add: article_title)

text \<open>
  Claim C6.  On a stored collection, \<open>get_article_info\<close> returns the first Article in the
  order of the collection whose \<open>Title\<close> is equal to the given string, and \<open>None\<close> when there
  is none, as on the empty collection.
\<close>

theorem find_by_title_first_match:
  assumes "get_file_contents py fs m = Inr (collection_json as)"
  shows "get_article_info py fs m t = Inr (map_option article_json (find (\<lambda>a. title a = t) as))"
  using assms by (simp add: get_article_info_def collection_json_def find_article_collection)

theorem find_by_title_first_match_witness:
  "get_file_contents cpython (stored [article_b, article_a, article_a2]) two_sensors
     = Inr (collection_json [article_b, article_a, article_a2])
   \<and> get_article_info cpython (stored [article_b, article_a, article_a2]) two_sensors (str ''A'')
     = Inr (Some (article_json article_a))
   \<and> get_article_info cpython (stored [article_b, article_a, article_a2]) two_sensors (str ''C'') = Inr None
   \<and> get_file_contents cpython (stored []) two_sensors = Inr (collection_json [])
   \<and> get_article_info cpython (stored []) two_sensors (str ''A'') = Inr None"
proof -
  have l: "get_file_contents cpython (stored [article_b, article_a, article_a2]) two_sensors
     = Inr (collection_json [article_b, article_a, article_a2])"
    by (rule load_stored) (simp add: scenario_valid)
  have e: "get_file_contents cpython (stored []) two_sensors = Inr (collection_json [])"
    by (rule load_stored) simp
  have t: "title article_b = str ''B''" "title article_a = str ''A''" "title article_a2 = str ''A''"
    by (simp_all add: article_a_def article_b_def article_a2_def)
  have n: "str ''B'' \<noteq> str ''A''" "str ''B'' \<noteq> str ''C''" "str ''A'' \<noteq> str ''C''"
    by (simp_all add: str_def)
  from find_by_title_first_match [OF l, of "str ''A''"]
       find_by_title_first_match [OF l, of "str ''C''"]
       find_by_title_first_match [OF e, of "str ''A''"] l e
  show ?thesis by (simp add: t n)
qed

lemma titles_collection:
  "map_exc (\<lambda>article. py_getitem article (str ''Title'')) (map article_json as)
     = Inr (map (\<lambda>a. JStr (title a)) as)"
  by (induction as) (simp_all add: article_title)

text \<open>
  Claim C7.  On a stored collection, \<open>get_all_titles\<close> returns a list as long as the
  collection that \<open>get_file_contents\<close> returns, and its \<open>i\<close>-th element is the \<open>Title\<close> of the
  \<open>i\<close>-th Article: nothing is filtered or reordered.
\<close>

theorem titles_agree_with_dump:
  assumes "get_file_contents py fs m = Inr (collection_json as)"
  shows "\<exists>ts. get_all_titles py fs m = Inr ts \<and> length ts = length as
              \<and> (\<forall>i<length as. ts ! i = JStr (title (as ! i)))"
  using assms by (simp add: get_all_titles_def collection_json_def titles_collection)

theorem titles_agree_with_dump_witness:
  "get_file_contents cpython (stored [article_b, article_a, article_a2]) two_sensors
     = Inr (collection_json [article_b, article_a, article_a2])
   \<and> (\<exists>ts. get_all_titles cpython (stored [article_b, article_a, article_a2]) two_sensors = Inr ts
          \<and> length ts = length [article_b, article_a, article_a2]
          \<and> (\<forall>i<length [article_b, article_a, article_a2].
                ts ! i = JStr (title ([article_b, article_a, article_a2] ! i))))
   \<and> get_all_titles cpython (stored [article_b, article_a, article_a2]) two_sensors
     = Inr [JStr (str ''B''), JStr (str ''A''), JStr (str ''A'')]"
proof -
  have l: "get_file_contents cpython (stored [article_b, article_a, article_a2]) two_sensors
     = Inr (collection_json [article_b, article_a, article_a2])"
    by (rule load_stored) (simp add: scenario_valid)
  have t: "title article_b = str ''B''" "title article_a = str ''A''" "title article_a2 = str ''A''"
    by (simp_all add: article_a_def article_b_def article_a2_def)
  have c: "get_all_titles cpython (stored [article_b, article_a, article_a2]) two_sensors
     = Inr [JStr (str ''B''), JStr (str ''A''), JStr (str ''A'')]"
    by (simp add: get_all_titles_def l collection_json_def article_title t)
  from titles_agree_with_dump [OF l] l c show ?thesis by blast
qed

lemma article_block_spec: "article_block rp (article_json a) = Inr (spec_text_block a)"
  by (simp add: article_block_def article_json_def spec_text_block_def str_def)

lemma blocks_collection:
  "map_exc (article_block rp) (map article_json as) = Inr (map spec_text_block as)"
  by (induction as) (simp_all add: article_block_spec)

text \<open>
  Claim C8.  In text mode, \<open>get_file_data\<close> on a stored collection returns the blocks of the
  Articles, each one the four \<open>field: value\<close> lines in the order Published, Title,
  Description, Link, joined by two line breaks, that is, with one empty line between two
  neighbouring blocks.
\<close>

theorem text_dump_blocks:
  assumes "get_file_contents py fs m = Inr (collection_json as)"
  shows "get_file_data rp py fs m (str ''text'') = Inr (Text (join [10, 10] (map spec_text_block as)))"
  using assms
  by (cases "as = []") (simp_all add: get_file_data_def collection_json_def blocks_collection)

theorem text_dump_blocks_witness:
  "get_file_contents cpython (stored [article_a, article_b]) two_sensors
     = Inr (collection_json [article_a, article_b])
   \<and> get_file_data blank_repr cpython (stored [article_a, article_b]) two_sensors (str ''text'')
     = Inr (Text (str ''Published: Mon, 01 Jan 2024'' @ [10] @ str ''Title: A'' @ [10]
                  @ str ''Description: No description'' @ [10] @ str ''Link: http://x''
                  @ [10, 10]
                  @ str ''Published: Tue, 02 Jan 2024'' @ [10] @ str ''Title: B'' @ [10]
                  @ str ''Description: d'' @ [10] @ str ''Link: http://y''))"
proof -
  have l: "get_file_contents cpython (stored [article_a, article_b]) two_sensors
     = Inr (collection_json [article_a, article_b])"
    by (rule load_stored) (simp add: scenario_valid)
  from text_dump_blocks [OF l, of blank_repr] l show ?thesis
    by (simp add: spec_text_block_def article_a_def article_b_def str_def)
qed


lemma getitem_Inr_iff:
  "(\<exists>t. py_getitem x k = Inr t) \<longleftrightarrow> (\<exists>kvs. x = JObj kvs \<and> k \<in> fst ` set kvs)"
proof (cases x)
  case (JObj kvs)
  have "(\<exists>t. map_of kvs k = Some t) \<longleftrightarrow> k \<in> fst ` set kvs"
    by (metis map_of_eq_None_iff not_None_eq)
  with JObj show ?thesis
    by (auto split: option.splits)
qed simp_all

lemma map_exc_returns_iff:
  "(\<exists>ys. map_exc f xs = Inr ys) \<longleftrightarrow> (\<forall>x\<in>set xs. \<exists>y. f x = Inr y)"
proof (induction xs)
  case Nil
  then show ?case by simp
next
  case (Cons x xs)
  show ?case
  proof (cases "f x")
    case (Inl e)
    then show ?thesis by simp
  next
    case (Inr y)
    with Cons.IH show ?thesis
      by (cases "map_exc f xs") auto
  qed
qed

lemma loads_list_of_empty_object:
  assumes "2 \<le> recursion_limit py"
  shows "json_loads py (str ''[{}]'') = Inr (JArr [JObj []])"
proof -
  from assms obtain d where d: "recursion_limit py = Suc (Suc d)"
    by (cases "recursion_limit py"; cases "recursion_limit py - 1") auto
  have "scan_once py (Suc (Suc (Suc n))) (Suc (Suc d)) [91, 123, 125, 93] = Inr (JArr [JObj []], [])"
    for n
    by (simp add: skip_ws_def is_ws_def)
  then have "scan_once py (2 * length (str ''[{}]'') + 2) (recursion_limit py) (skip_ws (str ''[{}]''))
             = Inr (JArr [JObj []], [])"
    by (simp add: str_def skip_ws_def is_ws_def d numeral_eq_Suc del: scan_once.simps)
  then show ?thesis
    by (simp add: json_loads_def skip_ws_def)
qed

lemma loads_empty_object:
  assumes "0 < recursion_limit py"
  shows "json_loads py (str ''{}'') = Inr (JObj [])"
proof -
  from assms obtain d where d: "recursion_limit py = Suc d"
    by (cases "recursion_limit py") auto
  have "scan_once py (Suc n) (Suc d) [123, 125] = Inr (JObj [], [])" for n
    by (simp add: skip_ws_def is_ws_def)
  then have "scan_once py (2 * length (str ''{}'') + 2) (recursion_limit py) (skip_ws (str ''{}''))
             = Inr (JObj [], [])"
    by (simp add: str_def skip_ws_def is_ws_def d numeral_eq_Suc del: scan_once.simps)
  then show ?thesis
    by (simp add: json_loads_def skip_ws_def)
qed

lemma loads_empty_string: "json_loads py [34, 34] = Inr (JStr [])"
proof -
  have "scan_once py (Suc n) depth [34, 34] = Inr (JStr [], [])" for n depth
    by (simp add: scanstring_at_def)
  then have "scan_once py (2 * length [34, 34 :: nat] + 2) (recursion_limit py) (skip_ws [34, 34])
             = Inr (JStr [], [])"
    by (simp add: skip_ws_def is_ws_def numeral_eq_Suc del: scan_once.simps)
  then show ?thesis
    by (simp add: json_loads_def skip_ws_def)
qed

lemma loads_number: "json_loads cpython (str ''5'') = Inr (JInt 5)"
proof -
  have "match_number cpython [53] = Some (Inr (JInt 5, []))"
    by (simp add: match_number_def Let_def is_digit_def int_value_def fraction_part_def
          exponent_part_def starts_fraction_def starts_exponent_def cpython_def)
  then have "scan_once cpython (Suc n) depth [53] = Inr (JInt 5, [])" for n depth
    by (simp add: str_def)
  then have "scan_once cpython (2 * length (str ''5'') + 2) (recursion_limit cpython)
               (skip_ws (str ''5'')) = Inr (JInt 5, [])"
    by (simp add: str_def skip_ws_def is_ws_def numeral_eq_Suc del: scan_once.simps)
  then show ?thesis
    by (simp add: json_loads_def skip_ws_def)
qed

text \<open>
  \<open>get_all_titles\<close> iterates over what \<open>get_file_contents\<close> returns and subscripts every
  element with \<open>"Title"\<close>.  So it returns on a list of objects that each have the key; and
  also on an empty object and on an empty string, which are iterated over without a step.
  On every other value it raises.
\<close>

lemma titles_return_iff:
  assumes "get_file_contents py fs m = Inr v"
  shows "(\<exists>ts. get_all_titles py fs m = Inr ts) \<longleftrightarrow>
         (case v of
            JArr xs \<Rightarrow> \<forall>x\<in>set xs. \<exists>kvs. x = JObj kvs \<and> str ''Title'' \<in> fst ` set kvs
          | JObj kvs \<Rightarrow> kvs = []
          | JStr s \<Rightarrow> s = []
          | _ \<Rightarrow> False)"
proof (cases v)
  case (JArr xs)
  with assms show ?thesis
    by (simp add: get_all_titles_def map_exc_returns_iff getitem_Inr_iff)
next
  case (JObj kvs)
  with assms show ?thesis
    by (cases kvs) (simp_all add: get_all_titles_def)
next
  case (JStr s)
  with assms show ?thesis
    by (cases s) (simp_all add: get_all_titles_def)
qed (use assms in \<open>simp_all add: get_all_titles_def\<close>)

lemma load_holding:
  "json_loads cpython doc = Inr v \<Longrightarrow> get_file_contents cpython (holding doc) two_sensors = Inr v"
  by (simp add: load_cases holding_def two_sensors_def)

text \<open>
  Claim C10, as amended.  \<open>get_file_contents\<close> does not check the shape of what it parses:
  the text \<open>[{}]\<close> is valid JSON and not an Article Collection, \<open>get_file_contents\<close> returns
  its value as it is, and \<open>get_all_titles\<close> raises \<open>KeyError\<close> on the same file.  When
  \<open>get_file_contents\<close> returns a value, \<open>get_all_titles\<close> returns a list exactly when the
  value is a list of objects that each have a \<open>Title\<close> key, or an empty object, or an empty
  string; on every other value it raises.  When \<open>get_file_contents\<close> raises, \<open>get_all_titles\<close>
  raises the same exception.
\<close>

theorem titles_return_exactly:
  "(2 \<le> recursion_limit py \<longrightarrow> json_loads py (str ''[{}]'') = Inr (JArr [JObj []]))
   \<and> (\<forall>as. JArr [JObj []] \<noteq> collection_json as)
   \<and> (2 \<le> recursion_limit py \<and> fs (output_file m) = File (str ''[{}]'') \<longrightarrow>
        get_file_contents py fs m = Inr (JArr [JObj []])
        \<and> get_all_titles py fs m = Inl (KeyError (str ''Title'')))
   \<and> (get_file_contents py' fs' m' = Inr v \<longrightarrow>
        ((\<exists>ts. get_all_titles py' fs' m' = Inr ts)
         \<longleftrightarrow> (case v of
                JArr xs \<Rightarrow> \<forall>x\<in>set xs. \<exists>kvs. x = JObj kvs \<and> str ''Title'' \<in> fst ` set kvs
              | JObj kvs \<Rightarrow> kvs = []
              | JStr s \<Rightarrow> s = []
              | _ \<Rightarrow> False)))
   \<and> (get_file_contents py' fs' m' = Inl e \<longrightarrow> get_all_titles py' fs' m' = Inl e)"
proof (intro conjI impI allI)
  assume "2 \<le> recursion_limit py"
  then show "json_loads py (str ''[{}]'') = Inr (JArr [JObj []])"
    by (rule loads_list_of_empty_object)
next
  fix as
  show "JArr [JObj []] \<noteq> collection_json as"
    by (cases as) (simp_all add: collection_json_def article_json_def)
next
  assume f: "2 \<le> recursion_limit py \<and> fs (output_file m) = File (str ''[{}]'')"
  then show "get_file_contents py fs m = Inr (JArr [JObj []])"
    by (simp add: load_cases loads_list_of_empty_object)
  then show "get_all_titles py fs m = Inl (KeyError (str ''Title''))"
    by (simp add: get_all_titles_def)
next
  assume "get_file_contents py' fs' m' = Inr v"
  then show "(\<exists>ts. get_all_titles py' fs' m' = Inr ts)
         \<longleftrightarrow> (case v of
                JArr xs \<Rightarrow> \<forall>x\<in>set xs. \<exists>kvs. x = JObj kvs \<and> str ''Title'' \<in> fst ` set kvs
              | JObj kvs \<Rightarrow> kvs = []
              | JStr s \<Rightarrow> s = []
              | _ \<Rightarrow> False)"
    by (rule titles_return_iff)
next
  assume "get_file_contents py' fs' m' = Inl e"
  then show "get_all_titles py' fs' m' = Inl e"
    by (simp add: get_all_titles_def)
qed

theorem titles_return_exactly_witness:
  "2 \<le> recursion_limit cpython
   \<and> holding (str ''[{}]'') (output_file two_sensors) = File (str ''[{}]'')
   \<and> get_file_contents cpython (holding (str ''[{}]'')) two_sensors = Inr (JArr [JObj []])
   \<and> get_all_titles cpython (holding (str ''[{}]'')) two_sensors = Inl (KeyError (str ''Title''))
   \<and> get_file_contents cpython (stored [article_a, article_b]) two_sensors
       = Inr (JArr [article_json article_a, article_json article_b])
   \<and> (\<exists>ts. get_all_titles cpython (stored [article_a, article_b]) two_sensors = Inr ts)
   \<and> get_file_contents cpython (holding (str ''{}'')) two_sensors = Inr (JObj [])
   \<and> (\<exists>ts. get_all_titles cpython (holding (str ''{}'')) two_sensors = Inr ts)
   \<and> get_file_contents cpython (holding (str ''5'')) two_sensors = Inr (JInt 5)
   \<and> (\<nexists>ts. get_all_titles cpython (holding (str ''5'')) two_sensors = Inr ts)
   \<and> get_file_contents cpython garbled two_sensors = Inl UnicodeDecodeError
   \<and> get_all_titles cpython garbled two_sensors = Inl UnicodeDecodeError"
proof -
  have l: "2 \<le> recursion_limit cpython"
    by (simp add: cpython_def)
  have h: "holding (str ''[{}]'') (output_file two_sensors) = File (str ''[{}]'')"
    by (simp add: holding_def two_sensors_def)
  have ld: "get_file_contents cpython (stored [article_a, article_b]) two_sensors
       = Inr (JArr [article_json article_a, article_json article_b])"
    using load_stored [of "[article_a, article_b]"]
    by (simp add: scenario_valid collection_json_def)
  have keys: "\<forall>x\<in>set [article_json article_a, article_json article_b].
                \<exists>kvs. x = JObj kvs \<and> str ''Title'' \<in> fst ` set kvs"
    by (simp add: article_json_def)
  have eo: "get_file_contents cpython (holding (str ''{}'')) two_sensors = Inr (JObj [])"
    by (rule load_holding, rule loads_empty_object) (simp add: cpython_def)
  have five: "get_file_contents cpython (holding (str ''5'')) two_sensors = Inr (JInt 5)"
    by (rule load_holding, rule loads_number)
  have g: "get_file_contents cpython garbled two_sensors = Inl UnicodeDecodeError"
    by (simp add: load_cases garbled_def two_sensors_def)
  from titles_return_exactly [of cpython "holding (str ''[{}]'')" two_sensors] l h
  have 1: "get_file_contents cpython (holding (str ''[{}]'')) two_sensors = Inr (JArr [JObj []])"
    and 2: "get_all_titles cpython (holding (str ''[{}]'')) two_sensors = Inl (KeyError (str ''Title''))"
    by blast+
  from titles_return_exactly [of _ _ _ cpython "stored [article_a, article_b]" two_sensors
         "JArr [article_json article_a, article_json article_b]"] ld keys
  have 3: "\<exists>ts. get_all_titles cpython (stored [article_a, article_b]) two_sensors = Inr ts"
    by simp
  from titles_return_exactly [of _ _ _ cpython "holding (str ''{}'')" two_sensors "JObj []"] eo
  have 4: "\<exists>ts. get_all_titles cpython (holding (str ''{}'')) two_sensors = Inr ts"
    by simp
  from titles_return_exactly [of _ _ _ cpython "holding (str ''5'')" two_sensors "JInt 5"] five
  have 5: "\<nexists>ts. get_all_titles cpython (holding (str ''5'')) two_sensors = Inr ts"
    by simp
  from titles_return_exactly [of _ _ _ cpython garbled two_sensors _ UnicodeDecodeError] g
  have 6: "get_all_titles cpython garbled two_sensors = Inl UnicodeDecodeError"
    by blast
  from l h ld eo five g 1 2 3 4 5 6 show ?thesis by blast
qed

text \<open>
  Claim C10, as stated, fails in its last part: listing the titles is total on more than
  the lists of objects with a \<open>Title\<close> key.  A file that holds an empty object, or an empty
  string, parses to a value that is no list, and \<open>get_all_titles\<close> returns the empty list on
  it.
\<close>

theorem titles_precondition_counterexample:
  "get_file_contents cpython (holding (str ''{}'')) two_sensors = Inr (JObj [])
   \<and> get_all_titles cpython (holding (str ''{}'')) two_sensors = Inr []
   \<and> get_file_contents cpython (holding [34, 34]) two_sensors = Inr (JStr [])
   \<and> get_all_titles cpython (holding [34, 34]) two_sensors = Inr []"
proof -
  have a: "get_file_contents cpython (holding (str ''{}'')) two_sensors = Inr (JObj [])"
    by (rule load_holding, rule loads_empty_object) (simp add: cpython_def)
  have b: "get_file_contents cpython (holding [34, 34]) two_sensors = Inr (JStr [])"
    by (rule load_holding, rule loads_empty_string)
  from a b show ?thesis
    by (simp add: get_all_titles_def)
qed


section \<open>The credential\<close>









end
